theory Spec2Isabelle
  imports Main
begin

section \<open>JavaScript values\<close>

text \<open>
  The values a record field can hold.  Numbers are integers here (the engines never do
  arithmetic on them; they only compare them).  An object literal is the list of its
  own properties in enumeration order.  \<open>JBuiltin n\<close> is the member that
  \<open>Object.prototype\<close> holds under the name \<open>n\<close>, which is what reading \<open>n\<close> from an object
  gives when the object has no property of its own with that name: a built-in function,
  and for \<open>__proto__\<close> the object \<open>Object.prototype\<close> itself.
\<close>

datatype jsval =
    JUndef
  | JNull
  | JBool bool
  | JNum int
  | JStr string
  | JArr "jsval list"
  | JObj "(string \<times> jsval) list"
  | JBuiltin string

type_synonym obj = "(string \<times> jsval) list"

text \<open>
  \<open>Map.prototype.set\<close> and property assignment: an existing key keeps its position and
  takes the new value, a new key goes to the end.
\<close>

fun map_set :: "'k \<Rightarrow> 'v \<Rightarrow> ('k \<times> 'v) list \<Rightarrow> ('k \<times> 'v) list" where
  "map_set k v [] = [(k, v)]"
| "map_set k v (p # ps) = (if fst p = k then (k, v) # ps else p # map_set k v ps)"

definition map_delete :: "'k \<Rightarrow> ('k \<times> 'v) list \<Rightarrow> ('k \<times> 'v) list" where
  "map_delete k ps = filter (\<lambda>p. fst p \<noteq> k) ps"

section \<open>The cache of \<open>StorageEngine\<close>\<close>

text \<open>
  \<open>this.cache\<close> is a JavaScript \<open>Map\<close> from record id to record; a \<open>Map\<close> iterates in
  insertion order, so the model is the list of its entries, oldest first.  Keys are
  compared by value, which is what \<open>Map\<close> does on strings, numbers, booleans and null.
  The cached items are record objects, which are always truthy, so \<open>if (item)\<close> is the
  test for presence.
\<close>

type_synonym 'v cache = "(jsval \<times> 'v) list"

definition getFromCache :: "'v cache \<Rightarrow> jsval \<Rightarrow> 'v option \<times> 'v cache" where
  "getFromCache c k =
     (case map_of c k of
        Some item \<Rightarrow> (Some item, map_delete k c @ [(k, item)])
      | None \<Rightarrow> (None, c))"

definition setToCache :: "nat \<Rightarrow> 'v cache \<Rightarrow> jsval \<Rightarrow> 'v \<Rightarrow> 'v cache" where
  "setToCache cacheSize c k v =
     map_set k v (if cacheSize \<le> length c then tl c else c)"

definition clearCache :: "'v cache \<Rightarrow> 'v cache" where
  "clearCache c = []"

text \<open>The constructor: \<open>this.cacheSize = options.cacheSize || 1000\<close>.\<close>

definition init_cacheSize :: "nat \<Rightarrow> nat" where
  "init_cacheSize n = (if n = 0 then 1000 else n)"

text \<open>Storing a list of entries one after the other, as repeated \<open>setToCache\<close> calls do.\<close>

fun setAll :: "nat \<Rightarrow> 'v cache \<Rightarrow> (jsval \<times> 'v) list \<Rightarrow> 'v cache" where
  "setAll n c [] = c"
| "setAll n c (kv # kvs) = setAll n (setToCache n c (fst kv) (snd kv)) kvs"

section \<open>Objects and the operators of the language\<close>

text \<open>The names of the members of \<open>Object.prototype\<close>, which every record inherits.\<close>

definition object_prototype :: "string list" where
  "object_prototype =
     [''constructor'', ''__defineGetter__'', ''__defineSetter__'', ''hasOwnProperty'',
      ''__lookupGetter__'', ''__lookupSetter__'', ''isPrototypeOf'', ''propertyIsEnumerable'',
      ''toString'', ''valueOf'', ''__proto__'', ''toLocaleString'']"

text \<open>
  \<open>ob[k]\<close> and \<open>ob.k\<close>: the value of the object's own property of that name; when it has
  none, the member of \<open>Object.prototype\<close> of that name; \<open>undefined\<close> when there is none
  either.
\<close>

definition obj_get :: "obj \<Rightarrow> string \<Rightarrow> jsval" where
  "obj_get ob k =
     (case map_of ob k of
        Some v \<Rightarrow> v
      | None \<Rightarrow> (if k \<in> set object_prototype then JBuiltin k else JUndef))"

text \<open>
  \<open>{...a, ...b}\<close>: the properties of \<open>a\<close>, each property of \<open>b\<close> assigned over them in
  turn.
\<close>

definition spread :: "obj \<Rightarrow> obj \<Rightarrow> obj" where
  "spread a b = foldl (\<lambda>acc p. map_set (fst p) (snd p) acc) a b"

text \<open>
  The rest pattern \<open>const {k1, ..., kn, ...rest} = ob\<close>: the properties whose names are
  not listed.
\<close>

definition without :: "string list \<Rightarrow> obj \<Rightarrow> obj" where
  "without ks ob = filter (\<lambda>p. fst p \<notin> set ks) ob"

fun truthy :: "jsval \<Rightarrow> bool" where
  "truthy JUndef = False"
| "truthy JNull = False"
| "truthy (JBool b) = b"
| "truthy (JNum n) = (n \<noteq> 0)"
| "truthy (JStr s) = (s \<noteq> [])"
| "truthy (JArr xs) = True"
| "truthy (JObj ps) = True"
| "truthy (JBuiltin n) = True"

text \<open>
  \<open>typeof v === 'object' && v !== null\<close> holds of arrays and of objects, among them
  \<open>Object.prototype\<close>, and not of functions; \<open>Array.isArray\<close> of arrays only.
\<close>

fun is_object :: "jsval \<Rightarrow> bool" where
  "is_object (JArr xs) = True"
| "is_object (JObj ps) = True"
| "is_object (JBuiltin n) = (n = ''__proto__'')"
| "is_object v = False"

fun isArray :: "jsval \<Rightarrow> bool" where
  "isArray (JArr xs) = True"
| "isArray v = False"

fun is_builtin :: "jsval \<Rightarrow> bool" where
  "is_builtin (JBuiltin n) = True"
| "is_builtin v = False"

text \<open>\<open>typeof v === 'function'\<close>\<close>

fun is_function :: "jsval \<Rightarrow> bool" where
  "is_function (JBuiltin n) = (n \<noteq> ''__proto__'')"
| "is_function v = False"

text \<open>The values that are neither objects nor functions.\<close>

definition is_primitive :: "jsval \<Rightarrow> bool" where
  "is_primitive v = (\<not> is_object v \<and> \<not> is_builtin v)"

text \<open>
  \<open>a === b\<close>.  Primitives are compared by value.  Arrays and objects are compared by
  reference in the language; a nested array or object is a value here, and the two
  operands of every \<open>===\<close> of the engines come from different objects (a stored record
  on one side, the caller's argument on the other), so two arrays or two objects are never
  the same reference and the comparison is false.  The one place where both operands can
  be the same reference, the field comparison of \<open>update\<close>, is treated there.  A member of
  \<open>Object.prototype\<close> is one object for all records, so it is equal to itself and to
  nothing else.
\<close>

fun strict_eq :: "jsval \<Rightarrow> jsval \<Rightarrow> bool" where
  "strict_eq (JArr xs) b = False"
| "strict_eq (JObj ps) b = False"
| "strict_eq a b = (a = b)"

text \<open>\<open>arr.includes(x)\<close>, false when \<open>arr\<close> is not an array (the callers test that first).\<close>

fun array_includes :: "jsval \<Rightarrow> jsval \<Rightarrow> bool" where
  "array_includes (JArr ys) x = list_ex (\<lambda>y. strict_eq y x) ys"
| "array_includes v x = False"

text \<open>\<open>field.startsWith('_')\<close>.\<close>

fun startsWith_underscore :: "string \<Rightarrow> bool" where
  "startsWith_underscore [] = False"
| "startsWith_underscore (c # cs) = (c = CHR ''_'')"

text \<open>
  \<open>Object.entries(v)\<close>: an object's own properties; for an array, its elements under
  their indices written in decimal.
\<close>

function dec :: "nat \<Rightarrow> string" where
  "dec n =
     (if n < 10 then [''0123456789'' ! n] else dec (n div 10) @ [''0123456789'' ! (n mod 10)])"
  by pat_completeness auto
termination
  by (relation "measure id") auto

fun entries :: "jsval \<Rightarrow> (string \<times> jsval) list" where
  "entries (JObj ps) = ps"
| "entries (JArr xs) = zip (map dec [0..<length xs]) xs"
| "entries v = []"

text \<open>
  The parts of the host that the engines call and this development does not define: the
  regular expression engine, and the coercions that \<open><\<close> and its siblings apply to operands
  that are not both numbers or both strings.  \<open>regexp env p\<close> is \<open>new RegExp(p)\<close>:
  \<open>None\<close> when the constructor throws, otherwise the \<open>test\<close> method of the expression.
  \<open>to_primitive env v\<close> is the primitive an array, object or function converts to, and
  \<open>string_to_number env s\<close> the number a string converts to (\<open>None\<close> for \<open>NaN\<close>).
\<close>

record js_env =
  regexp :: "jsval \<Rightarrow> (jsval \<Rightarrow> bool) option"
  to_primitive :: "jsval \<Rightarrow> jsval"
  string_to_number :: "string \<Rightarrow> int option"

fun str_less :: "string \<Rightarrow> string \<Rightarrow> bool" where
  "str_less [] [] = False"
| "str_less [] (y # ys) = True"
| "str_less (x # xs) [] = False"
| "str_less (x # xs) (y # ys) =
     ((of_char x :: nat) < of_char y \<or> (x = y \<and> str_less xs ys))"

fun to_number :: "js_env \<Rightarrow> jsval \<Rightarrow> int option" where
  "to_number env JUndef = None"
| "to_number env JNull = Some 0"
| "to_number env (JBool b) = Some (if b then 1 else 0)"
| "to_number env (JNum n) = Some n"
| "to_number env (JStr s) = string_to_number env s"
| "to_number env (JArr xs) = None"
| "to_number env (JObj ps) = None"
| "to_number env (JBuiltin n) = None"

text \<open>
  The comparison behind \<open><\<close>, \<open>>\<close>, \<open><=\<close> and \<open>>=\<close>: \<open>Some b\<close> for a definite answer,
  \<open>None\<close> when an operand converts to \<open>NaN\<close> (every one of the four operators is then
  false).
\<close>

fun less_prim :: "js_env \<Rightarrow> jsval \<Rightarrow> jsval \<Rightarrow> bool option" where
  "less_prim env (JStr s) (JStr t) = Some (str_less s t)"
| "less_prim env a b =
     (case to_number env a of
        None \<Rightarrow> None
      | Some x \<Rightarrow> (case to_number env b of None \<Rightarrow> None | Some y \<Rightarrow> Some (x < y)))"

definition js_less :: "js_env \<Rightarrow> jsval \<Rightarrow> jsval \<Rightarrow> bool option" where
  "js_less env a b =
     less_prim env (if is_primitive a then a else to_primitive env a)
                   (if is_primitive b then b else to_primitive env b)"

definition js_lt :: "js_env \<Rightarrow> jsval \<Rightarrow> jsval \<Rightarrow> bool" where
  "js_lt env a b = (js_less env a b = Some True)"

definition js_gt :: "js_env \<Rightarrow> jsval \<Rightarrow> jsval \<Rightarrow> bool" where
  "js_gt env a b = (js_less env b a = Some True)"

definition js_lte :: "js_env \<Rightarrow> jsval \<Rightarrow> jsval \<Rightarrow> bool" where
  "js_lte env a b = (js_less env b a = Some False)"

definition js_gte :: "js_env \<Rightarrow> jsval \<Rightarrow> jsval \<Rightarrow> bool" where
  "js_gte env a b = (js_less env a b = Some False)"

text \<open>
  \<open>JSON.parse(JSON.stringify(v))\<close>, which is what a record goes through on its way to a
  file and back: a property whose value is \<open>undefined\<close> or a function is not written, and
  \<open>undefined\<close> or a function in an array is written as \<open>null\<close>.  \<open>Object.prototype\<close> has no
  enumerable property and is written as \<open>{}\<close>.
\<close>

fun json_rt :: "jsval \<Rightarrow> jsval"
  and json_rt_elems :: "jsval list \<Rightarrow> jsval list"
  and json_rt_props :: "(string \<times> jsval) list \<Rightarrow> (string \<times> jsval) list" where
  "json_rt JUndef = JUndef"
| "json_rt JNull = JNull"
| "json_rt (JBool b) = JBool b"
| "json_rt (JNum n) = JNum n"
| "json_rt (JStr s) = JStr s"
| "json_rt (JArr xs) = JArr (json_rt_elems xs)"
| "json_rt (JObj ps) = JObj (json_rt_props ps)"
| "json_rt (JBuiltin n) = (if n = ''__proto__'' then JObj [] else JUndef)"
| "json_rt_elems [] = []"
| "json_rt_elems (x # xs) =
     (if json_rt x = JUndef then JNull else json_rt x) # json_rt_elems xs"
| "json_rt_props [] = []"
| "json_rt_props (p # ps) =
     (if json_rt (snd p) = JUndef then json_rt_props ps
      else (fst p, json_rt (snd p)) # json_rt_props ps)"

text \<open>
  The exceptions of the engines: the \<open>Error\<close> that \<open>update\<close> and \<open>delete\<close> throw for an id
  they do not find, the \<open>Error\<close> that \<open>restore\<close> throws for a backup file that does not
  exist, the \<open>SyntaxError\<close> of \<open>new RegExp\<close>, and the \<open>TypeError\<close> of reading a property of
  \<open>undefined\<close>.
\<close>

datatype error =
    NotFound jsval
  | BackupNotFound
  | SyntaxError
  | TypeError

section \<open>The logger\<close>

text \<open>
  \<open>Logger.info\<close> and \<open>Logger.error\<close> are arrow functions in an object literal, so \<open>this\<close>
  inside them is not \<open>Logger\<close>: \<open>this.levels\<close> is \<open>undefined\<close>, and the condition
  \<open>this.currentLevel >= this.levels.info\<close> throws a \<open>TypeError\<close>.  Every call of either
  function throws.
\<close>

definition Logger_info :: "error + unit" where
  "Logger_info = Inl TypeError"

definition Logger_error :: "error + unit" where
  "Logger_error = Inl TypeError"

text \<open>The statement \<open>l\<close> followed by \<open>return r\<close>.\<close>

definition returning :: "error + unit \<Rightarrow> 'a \<Rightarrow> error + 'a" where
  "returning l r = (case l of Inl e \<Rightarrow> Inl e | Inr u \<Rightarrow> Inr r)"

text \<open>\<open>try { body } catch (error) { Logger.error(...); return fallback }\<close>\<close>

definition caught :: "error + 'a \<Rightarrow> 'a \<Rightarrow> error + 'a" where
  "caught body fallback =
     (case body of Inr r \<Rightarrow> Inr r | Inl e \<Rightarrow> returning Logger_error fallback)"


section \<open>The query filter of \<open>find\<close>\<close>

text \<open>
  One \<open>case\<close> of the \<open>switch (op)\<close> that both engines share: the verdict of operator
  \<open>op\<close> with operand \<open>v\<close> on the field value \<open>x\<close>.  \<open>None\<close> is an operator key that no
  \<open>case\<close> matches (the \<open>switch\<close> has no \<open>default\<close>); \<open>Some (Inl e)\<close> is an exception
  (only \<open>new RegExp\<close> can throw).
\<close>

definition operator :: "js_env \<Rightarrow> string \<Rightarrow> jsval \<Rightarrow> jsval \<Rightarrow> (error + bool) option" where
  "operator env opk x v =
     (if opk = ''$eq'' then Some (Inr (strict_eq x v))
      else if opk = ''$ne'' then Some (Inr (\<not> strict_eq x v))
      else if opk = ''$gt'' then Some (Inr (js_gt env x v))
      else if opk = ''$gte'' then Some (Inr (js_gte env x v))
      else if opk = ''$lt'' then Some (Inr (js_lt env x v))
      else if opk = ''$lte'' then Some (Inr (js_lte env x v))
      else if opk = ''$in'' then Some (Inr (isArray v \<and> array_includes v x))
      else if opk = ''$nin'' then Some (Inr (isArray v \<and> \<not> array_includes v x))
      else if opk = ''$regex'' then
        Some (case regexp env v of None \<Rightarrow> Inl SyntaxError | Some t \<Rightarrow> Inr (t x))
      else if opk = ''$exists'' then Some (Inr (strict_eq (JBool (x \<noteq> JUndef)) v))
      else None)"

text \<open>\<open>Array.prototype.filter\<close> with a callback that can throw.\<close>

fun filter_err :: "('a \<Rightarrow> error + bool) \<Rightarrow> 'a list \<Rightarrow> error + 'a list" where
  "filter_err p [] = Inr []"
| "filter_err p (x # xs) =
     (case p x of
        Inl e \<Rightarrow> Inl e
      | Inr b \<Rightarrow>
          (case filter_err p xs of
             Inl e \<Rightarrow> Inl e
           | Inr ys \<Rightarrow> Inr (if b then x # ys else ys)))"

subsection \<open>\<open>JSONStorageEngine.find\<close>\<close>

text \<open>
  The loop over the operators of one field inside the filter callback: every recognised
  \<open>case\<close> returns from the callback at once, an unrecognised key goes on to the next
  operator, and the callback returns \<open>true\<close> when the loop ends.
\<close>

fun json_ops :: "js_env \<Rightarrow> jsval \<Rightarrow> (string \<times> jsval) list \<Rightarrow> error + bool" where
  "json_ops env x [] = Inr True"
| "json_ops env x (p # ps) =
     (case operator env (fst p) x (snd p) of
        Some r \<Rightarrow> r
      | None \<Rightarrow> json_ops env x ps)"

definition json_field :: "js_env \<Rightarrow> string \<Rightarrow> jsval \<Rightarrow> obj \<Rightarrow> error + bool" where
  "json_field env fld v item =
     (if is_object v then json_ops env (obj_get item fld) (entries v)
      else Inr (strict_eq (obj_get item fld) v))"

fun json_query :: "js_env \<Rightarrow> (nat \<Rightarrow> obj) \<Rightarrow> obj \<Rightarrow> nat list \<Rightarrow> error + nat list" where
  "json_query env h [] results = Inr results"
| "json_query env h (p # q) results =
     (if startsWith_underscore (fst p) then json_query env h q results
      else
        (case filter_err (\<lambda>r. json_field env (fst p) (snd p) (h r)) results of
           Inl e \<Rightarrow> Inl e
         | Inr rs \<Rightarrow> json_query env h q rs))"

subsection \<open>\<open>MemoryStorageEngine.find\<close>\<close>

text \<open>
  The loop over the operators of one field, with the current \<open>opMatch\<close>.  The result is
  whether the loop ran to its end; \<open>False\<close> is the \<open>match = false; break\<close>.  An operator
  key that no \<open>case\<close> matches leaves \<open>opMatch\<close> as the operator before it set it
  (\<open>false\<close> at the start).
\<close>

fun mem_ops :: "js_env \<Rightarrow> jsval \<Rightarrow> bool \<Rightarrow> (string \<times> jsval) list \<Rightarrow> error + bool" where
  "mem_ops env x opMatch [] = Inr True"
| "mem_ops env x opMatch (p # ps) =
     (case operator env (fst p) x (snd p) of
        Some (Inl e) \<Rightarrow> Inl e
      | Some (Inr b) \<Rightarrow> (if b then mem_ops env x b ps else Inr False)
      | None \<Rightarrow> (if opMatch then mem_ops env x opMatch ps else Inr False))"

text \<open>
  The loop over the fields of the query for one record, with the current \<open>match\<close>.  The
  \<open>break\<close> of the operator loop leaves only that loop, so the remaining fields are still
  evaluated; the \<open>break\<close> of the literal branch leaves the loop over the fields.
\<close>

fun mem_match :: "js_env \<Rightarrow> obj \<Rightarrow> obj \<Rightarrow> bool \<Rightarrow> error + bool" where
  "mem_match env rcd [] m = Inr m"
| "mem_match env rcd (p # q) m =
     (if startsWith_underscore (fst p) then mem_match env rcd q m
      else if is_object (snd p) then
        (case mem_ops env (obj_get rcd (fst p)) False (entries (snd p)) of
           Inl e \<Rightarrow> Inl e
         | Inr ok \<Rightarrow> mem_match env rcd q (m \<and> ok))
      else if \<not> strict_eq (obj_get rcd (fst p)) (snd p) then Inr False
      else mem_match env rcd q m)"


section \<open>\<open>StorageEngine\<close>: the state shared by the engines\<close>

text \<open>
  Records are JavaScript objects, and the engines keep references to them: the \<open>data\<close>
  array (or map) and the cache can hold the same object, and \<open>delete\<close> marks a record by
  assigning to its properties.  The store \<open>heap\<close> maps a reference to the object's
  current properties; \<open>nxt\<close> is the next unused reference.  An object the caller passes
  to \<open>insert\<close> is taken to be one the caller does not keep and change afterwards.

  An index is a \<open>Map\<close> from a field value to the \<open>Set\<close> of the ids that hold it; the
  order of neither matters to the engines, so the model is a partial function into sets.
  Its keys are compared by value, as \<open>Map\<close> does for primitives.  \<open>indexes\<close> lists the
  indexed fields in creation order.
\<close>

type_synonym index = "jsval \<Rightarrow> jsval set option"

record engine =
  heap :: "nat \<Rightarrow> obj"
  nxt :: nat
  indexes :: "(string \<times> index) list"
  cache :: "nat cache"
  cacheSize :: nat

definition id_of :: "obj \<Rightarrow> jsval" where
  "id_of ob = obj_get ob ''id''"

text \<open>\<open>item._deleted\<close> used as a condition.\<close>

definition is_deleted :: "obj \<Rightarrow> bool" where
  "is_deleted ob = truthy (obj_get ob ''_deleted'')"

text \<open>\<open>array.findIndex(p)\<close>: the first position that satisfies \<open>p\<close>; \<open>None\<close> is \<open>-1\<close>.\<close>

fun findIndex :: "('a \<Rightarrow> bool) \<Rightarrow> 'a list \<Rightarrow> nat option" where
  "findIndex p [] = None"
| "findIndex p (x # xs) =
     (if p x then Some 0 else (case findIndex p xs of None \<Rightarrow> None | Some n \<Rightarrow> Some (Suc n)))"

subsection \<open>Index maintenance, the same code in both engines\<close>

text \<open>\<open>if (!index.has(value)) index.set(value, new Set()); index.get(value).add(id)\<close>\<close>

definition index_add :: "index \<Rightarrow> jsval \<Rightarrow> jsval \<Rightarrow> index" where
  "index_add ix v i = ix(v \<mapsto> insert i (case ix v of None \<Rightarrow> {} | Some ids \<Rightarrow> ids))"

text \<open>
  \<open>if (value !== undefined && index.has(value)) { index.get(value).delete(id);
  if (index.get(value).size === 0) index.delete(value) }\<close>
\<close>

definition index_remove :: "index \<Rightarrow> jsval \<Rightarrow> jsval \<Rightarrow> index" where
  "index_remove ix v i =
     (if v \<noteq> JUndef then
        (case ix v of
           None \<Rightarrow> ix
         | Some ids \<Rightarrow> (if ids - {i} = {} then ix(v := None) else ix(v \<mapsto> ids - {i})))
      else ix)"

text \<open>
  \<open>rebuildIndex\<close> over the records paired with the id each is indexed under
  (\<open>record.id\<close> in the file-backed engine, the key of the map in the in-memory one).
\<close>

definition rebuild_step :: "string \<Rightarrow> index \<Rightarrow> jsval \<times> obj \<Rightarrow> index" where
  "rebuild_step f ix p =
     (if is_deleted (snd p) then ix
      else if obj_get (snd p) f \<noteq> JUndef then index_add ix (obj_get (snd p) f) (fst p)
      else ix)"

definition rebuildIndex :: "string \<Rightarrow> (jsval \<times> obj) list \<Rightarrow> index" where
  "rebuildIndex f recs = foldl (rebuild_step f) (\<lambda>v. None) recs"

definition rebuild_all :: "(jsval \<times> obj) list \<Rightarrow> (string \<times> index) list \<Rightarrow> (string \<times> index) list" where
  "rebuild_all recs ixs = map (\<lambda>p. (fst p, rebuildIndex (fst p) recs)) ixs"

text \<open>The loop over the indexes in \<open>insert\<close>.\<close>

definition index_insert :: "obj \<Rightarrow> string \<times> index \<Rightarrow> string \<times> index" where
  "index_insert d p =
     (if obj_get d (fst p) \<noteq> JUndef
      then (fst p, index_add (snd p) (obj_get d (fst p)) (id_of d))
      else p)"

text \<open>
  \<open>existing[field] !== updatedData[field]\<close> in \<open>update\<close>, where
  \<open>updatedData = {...existing, ...data, _updated: nowISO()}\<close>.  A field that \<open>data\<close> does
  not name is carried over by the spread: the two operands are then the same value, and
  for an array or object the same reference.  A field that \<open>data\<close> names comes from the
  caller's object.
\<close>

definition field_differs :: "obj \<Rightarrow> obj \<Rightarrow> obj \<Rightarrow> string \<Rightarrow> bool" where
  "field_differs existing d updatedData f =
     (if f \<in> fst ` set d \<or> f = ''_updated''
      then \<not> strict_eq (obj_get existing f) (obj_get updatedData f)
      else False)"

text \<open>The loop over the indexes in \<open>update\<close>.\<close>

definition index_update :: "obj \<Rightarrow> obj \<Rightarrow> obj \<Rightarrow> jsval \<Rightarrow> string \<times> index \<Rightarrow> string \<times> index" where
  "index_update existing d updatedData i p =
     (if field_differs existing d updatedData (fst p) then
        (fst p,
         (if obj_get updatedData (fst p) \<noteq> JUndef
          then index_add (index_remove (snd p) (obj_get existing (fst p)) i)
                 (obj_get updatedData (fst p)) i
          else index_remove (snd p) (obj_get existing (fst p)) i))
      else p)"

text \<open>The loop over the indexes in \<open>delete\<close>.\<close>

definition index_delete :: "obj \<Rightarrow> jsval \<Rightarrow> string \<times> index \<Rightarrow> string \<times> index" where
  "index_delete existing i p = (fst p, index_remove (snd p) (obj_get existing (fst p)) i)"

text \<open>\<open>insert\<close> up to the write-ahead log: the id and the two time stamps.\<close>

definition stamp_insert :: "obj \<Rightarrow> string \<Rightarrow> string \<Rightarrow> obj" where
  "stamp_insert d uid now =
     (let d1 = (if \<not> truthy (id_of d) then map_set ''id'' (JStr uid) d else d);
          d2 = map_set ''_created'' (JStr now) d1
      in map_set ''_updated'' (obj_get d2 ''_created'') d2)"

text \<open>\<open>{...existing, ...data, _updated: nowISO()}\<close> in \<open>update\<close>.\<close>

definition updatedData :: "obj \<Rightarrow> obj \<Rightarrow> string \<Rightarrow> obj" where
  "updatedData existing d now = map_set ''_updated'' (JStr now) (spread existing d)"

text \<open>\<open>existing._deleted = true; existing._deleted_at = nowISO()\<close> in \<open>delete\<close>.\<close>

definition mark_deleted :: "obj \<Rightarrow> string \<Rightarrow> obj" where
  "mark_deleted existing now =
     map_set ''_deleted_at'' (JStr now) (map_set ''_deleted'' (JBool True) existing)"

section \<open>\<open>JSONStorageEngine\<close>\<close>

text \<open>
  \<open>data\<close> is the array of records.  \<open>dataFile\<close> and \<open>walFile\<close> are the two files, \<open>None\<close>
  when the file does not exist, otherwise what parsing it gives: the array of records
  last saved, and the operations appended since the log was last removed.
\<close>

record json_engine = engine +
  data :: "nat list"
  dataFile :: "obj list option"
  walFile :: "(string \<times> obj) list option"

definition json_new :: "nat \<Rightarrow> obj list option \<Rightarrow> (string \<times> obj) list option \<Rightarrow> json_engine" where
  "json_new n dfile wfile =
     \<lparr>heap = (\<lambda>r. []), nxt = 0, indexes = [], cache = [], cacheSize = init_cacheSize n,
      data = [], dataFile = dfile, walFile = wfile\<rparr>"

definition json_recs :: "json_engine \<Rightarrow> (jsval \<times> obj) list" where
  "json_recs s = map (\<lambda>r. (id_of (heap s r), heap s r)) (data s)"

text \<open>Reading an array of records from a file gives new objects.\<close>

fun load :: "obj list \<Rightarrow> json_engine \<Rightarrow> json_engine" where
  "load [] s = s"
| "load (ob # obs) s =
     load obs (s\<lparr>heap := (heap s)(nxt s := ob), nxt := Suc (nxt s), data := data s @ [nxt s]\<rparr>)"

definition writeToWAL :: "json_engine \<Rightarrow> string \<times> obj \<Rightarrow> json_engine" where
  "writeToWAL s operation =
     s\<lparr>walFile := Some ((case walFile s of None \<Rightarrow> [] | Some w \<Rightarrow> w)
                          @ [(fst operation, json_rt_props (snd operation))])\<rparr>"

definition saveData :: "json_engine \<Rightarrow> json_engine" where
  "saveData s = s\<lparr>dataFile := Some (map (\<lambda>r. json_rt_props (heap s r)) (data s))\<rparr>"

text \<open>
  \<open>applyOperation\<close>, with the time \<open>nowISO()\<close> returns.  \<open>n\<close> is a position of \<open>data\<close>
  when \<open>findIndex\<close> returns it.
\<close>

definition applyOperation :: "json_engine \<Rightarrow> string \<times> obj \<Rightarrow> string \<Rightarrow> json_engine" where
  "applyOperation s operation now =
     (if fst operation = ''insert'' then
        s\<lparr>heap := (heap s)(nxt s := snd operation), nxt := Suc (nxt s),
          data := data s @ [nxt s]\<rparr>
      else if fst operation = ''update'' then
        (case findIndex (\<lambda>r. strict_eq (id_of (heap s r)) (id_of (snd operation))) (data s) of
           None \<Rightarrow> s
         | Some n \<Rightarrow>
             s\<lparr>heap := (heap s)(nxt s := updatedData (heap s (data s ! n)) (snd operation) now),
               nxt := Suc (nxt s),
               data := (data s)[n := nxt s]\<rparr>)
      else if fst operation = ''delete'' then
        s\<lparr>data := filter (\<lambda>r. \<not> strict_eq (id_of (heap s r)) (id_of (snd operation))) (data s)\<rparr>
      else s)"

text \<open>The loop over the lines of the log; \<open>clock k\<close> is the time at line \<open>k\<close>.\<close>

fun replay :: "(nat \<Rightarrow> string) \<Rightarrow> nat \<Rightarrow> (string \<times> obj) list \<Rightarrow> json_engine \<Rightarrow> json_engine" where
  "replay clock k [] s = s"
| "replay clock k (operation # ops) s =
     replay clock (Suc k) ops (applyOperation s operation (clock k))"

text \<open>
  The engine as \<open>init\<close> leaves it: the data file loaded, the log replayed and removed,
  the indexes rebuilt.  The \<open>Logger.info\<close> call that follows changes nothing of it.
\<close>

definition json_init :: "json_engine \<Rightarrow> (nat \<Rightarrow> string) \<Rightarrow> json_engine" where
  "json_init s clock =
     (let s1 = (case dataFile s of None \<Rightarrow> s | Some recs \<Rightarrow> load recs (s\<lparr>data := []\<rparr>));
          s2 = (case walFile s1 of
                  None \<Rightarrow> s1
                | Some ops \<Rightarrow> (replay clock 0 ops s1)\<lparr>walFile := None\<rparr>)
      in s2\<lparr>indexes := rebuild_all (json_recs s2) (indexes s2)\<rparr>)"

definition json_get :: "json_engine \<Rightarrow> jsval \<Rightarrow> nat option \<times> json_engine" where
  "json_get s i =
     (case getFromCache (cache s) i of
        (Some r, c) \<Rightarrow> (Some r, s\<lparr>cache := c\<rparr>)
      | (None, c) \<Rightarrow>
          (case List.find (\<lambda>r. strict_eq (id_of (heap s r)) i \<and> \<not> is_deleted (heap s r)) (data s) of
             Some r \<Rightarrow> (Some r, s\<lparr>cache := setToCache (cacheSize s) (cache s) i r\<rparr>)
           | None \<Rightarrow> (None, s)))"

definition json_find :: "js_env \<Rightarrow> json_engine \<Rightarrow> obj \<Rightarrow> error + nat list" where
  "json_find env s q =
     json_query env (heap s) q (filter (\<lambda>r. \<not> is_deleted (heap s r)) (data s))"

definition json_insert :: "json_engine \<Rightarrow> obj \<Rightarrow> string \<Rightarrow> string \<Rightarrow> nat \<times> json_engine" where
  "json_insert s d0 uid now =
     (let d = stamp_insert d0 uid now;
          s1 = writeToWAL s (''insert'', d);
          r = nxt s1;
          s2 = s1\<lparr>heap := (heap s1)(r := d), nxt := Suc r, data := data s1 @ [r]\<rparr>;
          s3 = s2\<lparr>indexes := map (index_insert d) (indexes s2)\<rparr>;
          s4 = saveData s3
      in (r, s4\<lparr>cache := setToCache (cacheSize s4) (cache s4) (id_of d) r\<rparr>))"

definition json_update :: "json_engine \<Rightarrow> jsval \<Rightarrow> obj \<Rightarrow> string \<Rightarrow> (error + nat) \<times> json_engine" where
  "json_update s0 i d now =
     (case json_get s0 i of
        (None, s) \<Rightarrow> (Inl (NotFound i), s)
      | (Some e, s) \<Rightarrow>
          (let existing = heap s e;
               upd = updatedData existing d now;
               s1 = writeToWAL s (''update'', upd);
               r = nxt s1;
               s2 = s1\<lparr>heap := (heap s1)(r := upd), nxt := Suc r\<rparr>;
               s3 = (case findIndex (\<lambda>x. strict_eq (id_of (heap s2 x)) i) (data s2) of
                       None \<Rightarrow> s2
                     | Some n \<Rightarrow> s2\<lparr>data := (data s2)[n := r]\<rparr>);
               s4 = s3\<lparr>indexes := map (index_update existing d upd i) (indexes s3)\<rparr>;
               s5 = saveData s4
           in (Inr r, s5\<lparr>cache := setToCache (cacheSize s5) (cache s5) i r\<rparr>)))"

definition json_delete :: "json_engine \<Rightarrow> jsval \<Rightarrow> string \<Rightarrow> (error + bool) \<times> json_engine" where
  "json_delete s0 i now =
     (case json_get s0 i of
        (None, s) \<Rightarrow> (Inl (NotFound i), s)
      | (Some e, s) \<Rightarrow>
          (let s1 = writeToWAL s (''delete'', [(''id'', i)]);
               existing = mark_deleted (heap s1 e) now;
               s2 = s1\<lparr>heap := (heap s1)(e := existing)\<rparr>;
               s3 = (case findIndex (\<lambda>x. strict_eq (id_of (heap s2 x)) i) (data s2) of
                       None \<Rightarrow> s2
                     | Some n \<Rightarrow> s2\<lparr>data := (data s2)[n := e]\<rparr>);
               s4 = s3\<lparr>indexes := map (index_delete existing i) (indexes s3)\<rparr>;
               s5 = saveData s4
           in (Inr True, s5\<lparr>cache := map_delete i (cache s5)\<rparr>)))"

text \<open>
  The engine as \<open>createIndex\<close> leaves it; a new index is followed by a \<open>Logger.info\<close>
  call, which changes nothing of it.
\<close>

definition json_createIndex :: "json_engine \<Rightarrow> string \<Rightarrow> json_engine" where
  "json_createIndex s f =
     (if f \<in> fst ` set (indexes s) then s
      else s\<lparr>indexes := indexes s @ [(f, rebuildIndex f (json_recs s))]\<rparr>)"

text \<open>
  \<open>compact\<close>.  Its last statement before \<open>return true\<close> is a call of \<open>Logger.info\<close>, inside
  the \<open>try\<close> block.
\<close>

definition json_compact :: "json_engine \<Rightarrow> (error + bool) \<times> json_engine" where
  "json_compact s =
     (let compactedData =
            map (without [''_created'', ''_updated''])
              (filter (\<lambda>ob. \<not> is_deleted ob) (map (heap s) (data s)));
          s1 = s\<lparr>dataFile := Some (map json_rt_props compactedData), walFile := None\<rparr>;
          s2 = load compactedData (s1\<lparr>data := []\<rparr>);
          s3 = s2\<lparr>cache := clearCache (cache s2)\<rparr>
      in (caught (returning Logger_info True) False,
          s3\<lparr>indexes := rebuild_all (json_recs s3) (indexes s3)\<rparr>))"

text \<open>
  \<open>backup\<close> copies the data file, and the log when there is one.  \<open>json_backup\<close> is what
  the backup file holds once the call has ended; \<open>None\<close> when no backup file is written,
  because the copy throws for a collection that has no data file yet.
\<close>

definition json_backup :: "json_engine \<Rightarrow> obj list option" where
  "json_backup s = dataFile s"

text \<open>
  \<open>restore\<close> from a file with the given content; \<open>None\<close> is a path that does not exist,
  for which the \<open>try\<close> block throws at once.  Otherwise its last statement before
  \<open>return true\<close> is a call of \<open>Logger.info\<close>.
\<close>

definition json_restore ::
    "json_engine \<Rightarrow> obj list option \<Rightarrow> (error + bool) \<times> json_engine" where
  "json_restore s backupFile =
     (case backupFile of
        None \<Rightarrow> (caught (Inl BackupNotFound) False, s)
      | Some recs \<Rightarrow>
          (let s1 = s\<lparr>data := [], cache := clearCache (cache s)\<rparr>;
               s2 = saveData (load recs s1)
           in (caught (returning Logger_info True) False,
               s2\<lparr>indexes := rebuild_all (json_recs s2) (indexes s2)\<rparr>)))"


section \<open>\<open>MemoryStorageEngine\<close>\<close>

text \<open>\<open>mdata\<close> is \<open>this.data\<close>, a \<open>Map\<close> from id to record, in insertion order.\<close>

record mem_engine = engine +
  mdata :: "(jsval \<times> nat) list"

definition mem_new :: "nat \<Rightarrow> mem_engine" where
  "mem_new n =
     \<lparr>heap = (\<lambda>r. []), nxt = 0, indexes = [], cache = [], cacheSize = init_cacheSize n,
      mdata = []\<rparr>"

definition mem_recs :: "mem_engine \<Rightarrow> (jsval \<times> obj) list" where
  "mem_recs s = map (\<lambda>p. (fst p, heap s (snd p))) (mdata s)"

definition mem_get :: "mem_engine \<Rightarrow> jsval \<Rightarrow> nat option \<times> mem_engine" where
  "mem_get s i =
     (case getFromCache (cache s) i of
        (Some r, c) \<Rightarrow> (Some r, s\<lparr>cache := c\<rparr>)
      | (None, c) \<Rightarrow>
          (case map_of (mdata s) i of
             None \<Rightarrow> (None, s)
           | Some r \<Rightarrow>
               (if \<not> is_deleted (heap s r)
                then (Some r, s\<lparr>cache := setToCache (cacheSize s) (cache s) i r\<rparr>)
                else (None, s))))"

text \<open>The loop of \<open>find\<close> over the entries of the map.\<close>

fun mem_scan :: "js_env \<Rightarrow> (nat \<Rightarrow> obj) \<Rightarrow> obj \<Rightarrow> (jsval \<times> nat) list \<Rightarrow> error + nat list" where
  "mem_scan env h q [] = Inr []"
| "mem_scan env h q (p # ps) =
     (if is_deleted (h (snd p)) then mem_scan env h q ps
      else
        (case mem_match env (h (snd p)) q True of
           Inl e \<Rightarrow> Inl e
         | Inr m \<Rightarrow>
             (case mem_scan env h q ps of
                Inl e \<Rightarrow> Inl e
              | Inr rs \<Rightarrow> Inr (if m then snd p # rs else rs))))"

definition mem_find :: "js_env \<Rightarrow> mem_engine \<Rightarrow> obj \<Rightarrow> error + nat list" where
  "mem_find env s q = mem_scan env (heap s) q (mdata s)"

definition mem_insert :: "mem_engine \<Rightarrow> obj \<Rightarrow> string \<Rightarrow> string \<Rightarrow> nat \<times> mem_engine" where
  "mem_insert s d0 uid now =
     (let d = stamp_insert d0 uid now;
          r = nxt s;
          s1 = s\<lparr>heap := (heap s)(r := d), nxt := Suc r, mdata := map_set (id_of d) r (mdata s)\<rparr>;
          s2 = s1\<lparr>indexes := map (index_insert d) (indexes s1)\<rparr>
      in (r, s2\<lparr>cache := setToCache (cacheSize s2) (cache s2) (id_of d) r\<rparr>))"

definition mem_update :: "mem_engine \<Rightarrow> jsval \<Rightarrow> obj \<Rightarrow> string \<Rightarrow> (error + nat) \<times> mem_engine" where
  "mem_update s0 i d now =
     (case mem_get s0 i of
        (None, s) \<Rightarrow> (Inl (NotFound i), s)
      | (Some e, s) \<Rightarrow>
          (let existing = heap s e;
               upd = updatedData existing d now;
               r = nxt s;
               s1 = s\<lparr>heap := (heap s)(r := upd), nxt := Suc r,
                      mdata := map_set i r (mdata s)\<rparr>;
               s2 = s1\<lparr>indexes := map (index_update existing d upd i) (indexes s1)\<rparr>
           in (Inr r, s2\<lparr>cache := setToCache (cacheSize s2) (cache s2) i r\<rparr>)))"

definition mem_delete :: "mem_engine \<Rightarrow> jsval \<Rightarrow> string \<Rightarrow> (error + bool) \<times> mem_engine" where
  "mem_delete s0 i now =
     (case mem_get s0 i of
        (None, s) \<Rightarrow> (Inl (NotFound i), s)
      | (Some e, s) \<Rightarrow>
          (let existing = mark_deleted (heap s e) now;
               s1 = s\<lparr>heap := (heap s)(e := existing)\<rparr>;
               s2 = s1\<lparr>indexes := map (index_delete existing i) (indexes s1)\<rparr>
           in (Inr True, s2\<lparr>cache := map_delete i (cache s2)\<rparr>)))"

text \<open>The engine as \<open>createIndex\<close> leaves it, as in the file-backed engine.\<close>

definition mem_createIndex :: "mem_engine \<Rightarrow> string \<Rightarrow> mem_engine" where
  "mem_createIndex s f =
     (if f \<in> fst ` set (indexes s) then s
      else s\<lparr>indexes := indexes s @ [(f, rebuildIndex f (mem_recs s))]\<rparr>)"

text \<open>
  The loop of \<open>compact\<close> and of \<open>restore\<close>: each record is a new object, stored under its
  key with \<open>Map.prototype.set\<close>.  Both methods end with a call of \<open>Logger.info\<close> and
  \<open>return true\<close>; in \<open>compact\<close> the call is outside any \<open>try\<close> block.
\<close>

fun mem_store :: "(jsval \<times> obj) list \<Rightarrow> mem_engine \<Rightarrow> mem_engine" where
  "mem_store [] s = s"
| "mem_store (p # ps) s =
     mem_store ps
       (s\<lparr>heap := (heap s)(nxt s := snd p), nxt := Suc (nxt s),
          mdata := map_set (fst p) (nxt s) (mdata s)\<rparr>)"

definition system_fields :: "string list" where
  "system_fields = [''_created'', ''_updated'', ''_deleted'', ''_deleted_at'']"

definition mem_compact :: "mem_engine \<Rightarrow> (error + bool) \<times> mem_engine" where
  "mem_compact s =
     (let compactedData =
            map (\<lambda>p. (fst p, without system_fields (snd p)))
              (filter (\<lambda>p. \<not> is_deleted (snd p)) (mem_recs s));
          s1 = mem_store compactedData (s\<lparr>mdata := []\<rparr>);
          s2 = s1\<lparr>cache := clearCache (cache s1)\<rparr>
      in (returning Logger_info True,
          s2\<lparr>indexes := rebuild_all (mem_recs s2) (indexes s2)\<rparr>))"

text \<open>
  What \<open>backup\<close> writes to the backup file, read back.  The file is written before the
  \<open>Logger.info\<close> call.
\<close>

definition mem_backup :: "mem_engine \<Rightarrow> obj list" where
  "mem_backup s =
     map json_rt_props
       (map (without system_fields)
          (filter (\<lambda>ob. \<not> is_deleted ob) (map (\<lambda>p. heap s (snd p)) (mdata s))))"

text \<open>
  One record of \<open>restore\<close>: \<open>{...record, id, _created: now, _updated: now}\<close> under the key
  \<open>id = record.id || uid()\<close>.
\<close>

definition restored :: "obj \<Rightarrow> string \<Rightarrow> string \<Rightarrow> jsval \<times> obj" where
  "restored rcd uid now =
     (let i = (if truthy (id_of rcd) then id_of rcd else JStr uid)
      in (i, map_set ''_updated'' (JStr now) (map_set ''_created'' (JStr now)
               (map_set ''id'' i rcd))))"

text \<open>
  \<open>restore\<close> from a file with the given content (\<open>None\<close>: no such file).  \<open>uids k\<close> and
  \<open>clock k\<close> are what \<open>uid()\<close> and \<open>nowISO()\<close> return at record \<open>k\<close> of the file.
\<close>

definition mem_restore ::
    "mem_engine \<Rightarrow> obj list option \<Rightarrow> (nat \<Rightarrow> string) \<Rightarrow> (nat \<Rightarrow> string) \<Rightarrow>
     (error + bool) \<times> mem_engine" where
  "mem_restore s backupFile uids clock =
     (case backupFile of
        None \<Rightarrow> (caught (Inl BackupNotFound) False, s)
      | Some recs \<Rightarrow>
          (let s1 = s\<lparr>mdata := [], cache := clearCache (cache s)\<rparr>;
               s2 = mem_store (map (\<lambda>k. restored (recs ! k) (uids k) (clock k)) [0..<length recs]) s1
           in (caught (returning Logger_info True) False,
               s2\<lparr>indexes := rebuild_all (mem_recs s2) (indexes s2)\<rparr>)))"


section \<open>The filter contract in the specification's words\<close>










section \<open>Sequences of calls\<close>

text \<open>
  A call of the engine's interface with everything it reads from outside: the argument
  objects, and what \<open>uid()\<close> and \<open>nowISO()\<close> return during the call.  \<open>Restore\<close> carries
  the content of the backup file.  \<open>find\<close> and \<open>backup\<close> do not change the engine.
\<close>

datatype call =
    Insert obj string string
  | Update jsval obj string
  | Delete jsval string
  | Get jsval
  | CreateIndex string
  | Compact
  | Restore "obj list option" "nat \<Rightarrow> string" "nat \<Rightarrow> string"

fun json_step :: "json_engine \<Rightarrow> call \<Rightarrow> json_engine" where
  "json_step s (Insert d uid now) = snd (json_insert s d uid now)"
| "json_step s (Update i d now) = snd (json_update s i d now)"
| "json_step s (Delete i now) = snd (json_delete s i now)"
| "json_step s (Get i) = snd (json_get s i)"
| "json_step s (CreateIndex f) = json_createIndex s f"
| "json_step s Compact = snd (json_compact s)"
| "json_step s (Restore file uids clock) = snd (json_restore s file)"

fun json_run :: "json_engine \<Rightarrow> call list \<Rightarrow> json_engine" where
  "json_run s [] = s"
| "json_run s (c # cs) = json_run (json_step s c) cs"

fun mem_step :: "mem_engine \<Rightarrow> call \<Rightarrow> mem_engine" where
  "mem_step s (Insert d uid now) = snd (mem_insert s d uid now)"
| "mem_step s (Update i d now) = snd (mem_update s i d now)"
| "mem_step s (Delete i now) = snd (mem_delete s i now)"
| "mem_step s (Get i) = snd (mem_get s i)"
| "mem_step s (CreateIndex f) = mem_createIndex s f"
| "mem_step s Compact = snd (mem_compact s)"
| "mem_step s (Restore file uids clock) = snd (mem_restore s file uids clock)"

fun mem_run :: "mem_engine \<Rightarrow> call list \<Rightarrow> mem_engine" where
  "mem_run s [] = s"
| "mem_run s (c # cs) = mem_run (mem_step s c) cs"

text \<open>The calls that write the data array anew: \<open>compact\<close> and \<open>restore\<close>.\<close>

fun writes_anew :: "call \<Rightarrow> bool" where
  "writes_anew Compact = True"
| "writes_anew (Restore backupFile uids clock) = True"
| "writes_anew c = False"

text \<open>The records \<open>find({})\<close> returns: the live records, in order.\<close>

definition json_live :: "json_engine \<Rightarrow> obj list" where
  "json_live s = filter (\<lambda>ob. \<not> is_deleted ob) (map (heap s) (data s))"

definition mem_live :: "mem_engine \<Rightarrow> (jsval \<times> obj) list" where
  "mem_live s = filter (\<lambda>p. \<not> is_deleted (snd p)) (mem_recs s)"

subsection \<open>Disciplined callers\<close>

text \<open>
  A caller of the in-memory engine that leaves the tombstone field alone: no object passed
  to \<open>insert\<close> or to \<open>update\<close> gives \<open>_deleted\<close> a truthy value.
\<close>

fun mem_ok :: "call \<Rightarrow> bool" where
  "mem_ok (Insert d uid now) = (\<not> is_deleted d)"
| "mem_ok (Update i d now) = (\<not> is_deleted (spread [] d))"
| "mem_ok c = True"

text \<open>
  A caller of the file-backed engine that, in addition, keeps ids unique and fixed: the id
  an \<open>insert\<close> stores is a primitive that no stored record has, live or deleted; an object
  passed to \<open>update(id, data)\<close> either does not name \<open>id\<close> or gives it the value \<open>id\<close>
  (spread over a record of that id, it leaves the id as it is); and a backup file that is
  restored holds records with distinct primitive ids.
\<close>

fun json_ok :: "json_engine \<Rightarrow> call \<Rightarrow> bool" where
  "json_ok s (Insert d uid now) =
     (\<not> is_deleted d
      \<and> is_primitive (id_of (stamp_insert d uid now))
      \<and> id_of (stamp_insert d uid now) \<notin> set (map (\<lambda>r. id_of (heap s r)) (data s)))"
| "json_ok s (Update i d now) =
     (\<not> is_deleted (spread [] d) \<and> id_of (spread [(''id'', i)] d) = i)"
| "json_ok s (CreateIndex f) = True"
| "json_ok s (Restore file uids clock) =
     (case file of
        None \<Rightarrow> True
      | Some recs \<Rightarrow> distinct (map id_of recs) \<and> list_all (\<lambda>ob. is_primitive (id_of ob)) recs)"
| "json_ok s c = True"

fun json_ok_run :: "json_engine \<Rightarrow> call list \<Rightarrow> bool" where
  "json_ok_run s [] = True"
| "json_ok_run s (c # cs) = (json_ok s c \<and> json_ok_run (json_step s c) cs)"

text \<open>
  What the cache of the file-backed engine needs of its caller: the id an \<open>insert\<close> stores
  is a primitive that no live record has, and \<open>update(id, data)\<close> leaves the id as it is;
  neither gives \<open>_deleted\<close> a truthy value.
\<close>

fun cache_ok :: "json_engine \<Rightarrow> call \<Rightarrow> bool" where
  "cache_ok s (Insert d uid now) =
     (\<not> is_deleted d
      \<and> is_primitive (id_of (stamp_insert d uid now))
      \<and> id_of (stamp_insert d uid now)
          \<notin> set (map id_of (filter (\<lambda>ob. \<not> is_deleted ob) (map (heap s) (data s)))))"
| "cache_ok s (Update i d now) =
     (\<not> is_deleted (spread [] d) \<and> id_of (spread [(''id'', i)] d) = i)"
| "cache_ok s c = True"

fun cache_ok_run :: "json_engine \<Rightarrow> call list \<Rightarrow> bool" where
  "cache_ok_run s [] = True"
| "cache_ok_run s (c # cs) = (cache_ok s c \<and> cache_ok_run (json_step s c) cs)"

subsection \<open>Cache coherence and index consistency\<close>

text \<open>
  Every entry of the cache maps its id to the record that \<open>get\<close> finds for that id when it
  misses the cache.
\<close>

definition json_coherent :: "json_engine \<Rightarrow> bool" where
  "json_coherent s =
     list_all
       (\<lambda>p. List.find (\<lambda>r. strict_eq (id_of (heap s r)) (fst p) \<and> \<not> is_deleted (heap s r)) (data s)
              = Some (snd p))
       (cache s)"

definition mem_coherent :: "mem_engine \<Rightarrow> bool" where
  "mem_coherent s =
     list_all
       (\<lambda>p. map_of (mdata s) (fst p) = Some (snd p) \<and> \<not> is_deleted (heap s (snd p)))
       (cache s)"

text \<open>
  The index of the specification: a value is mapped to the set of the ids of the live
  records that hold it in the indexed field.
\<close>

definition ids_holding :: "string \<Rightarrow> (jsval \<times> obj) list \<Rightarrow> jsval \<Rightarrow> jsval set" where
  "ids_holding f recs v =
     set (map fst (filter (\<lambda>p. \<not> is_deleted (snd p) \<and> obj_get (snd p) f = v) recs))"

text \<open>Every index equals what \<open>rebuildIndex\<close> computes from the records now stored.\<close>

definition json_indexes_consistent :: "json_engine \<Rightarrow> bool" where
  "json_indexes_consistent s =
     list_all (\<lambda>p. snd p = rebuildIndex (fst p) (json_recs s)) (indexes s)"

text \<open>
  A caller that creates no index on the two tombstone fields, which \<open>delete\<close> assigns
  after it has read the record.
\<close>

fun index_ok :: "call \<Rightarrow> bool" where
  "index_ok (CreateIndex f) = (f \<noteq> ''_deleted'' \<and> f \<noteq> ''_deleted_at'')"
| "index_ok c = True"

text \<open>
  The invariants behind the two properties.  In the file-backed engine: the keys of the
  cache are distinct; every cached reference is a live record of the data array, cached
  under its own id; the ids of the data array are distinct primitives; and every reference
  of the array is allocated.  In the in-memory engine: the keys of the cache are distinct;
  every cached reference is the live record the map holds under that key; and the map has
  distinct keys and distinct, allocated references.
\<close>

definition json_inv :: "json_engine \<Rightarrow> bool" where
  "json_inv s =
     (distinct (map fst (cache s))
      \<and> (\<forall>p\<in>set (cache s).
            snd p \<in> set (data s) \<and> id_of (heap s (snd p)) = fst p \<and> \<not> is_deleted (heap s (snd p)))
      \<and> distinct (map (\<lambda>r. id_of (heap s r)) (data s))
      \<and> (\<forall>r\<in>set (data s). r < nxt s \<and> is_primitive (id_of (heap s r))))"

text \<open>
  The invariant behind the coherence of the cache of the file-backed engine alone, which
  allows two stored records to carry one id as long as \<open>get\<close> finds the cached one.
\<close>

definition cache_inv :: "json_engine \<Rightarrow> bool" where
  "cache_inv s =
     (distinct (map fst (cache s)) \<and> json_coherent s \<and> (\<forall>r\<in>set (data s). r < nxt s))"

definition index_fields_ok :: "json_engine \<Rightarrow> bool" where
  "index_fields_ok s =
     list_all (\<lambda>p. fst p \<noteq> ''_deleted'' \<and> fst p \<noteq> ''_deleted_at'') (indexes s)"

definition mem_inv :: "mem_engine \<Rightarrow> bool" where
  "mem_inv s =
     (distinct (map fst (cache s))
      \<and> (\<forall>p\<in>set (cache s).
            map_of (mdata s) (fst p) = Some (snd p) \<and> \<not> is_deleted (heap s (snd p)))
      \<and> distinct (map fst (mdata s))
      \<and> distinct (map snd (mdata s))
      \<and> (\<forall>p\<in>set (mdata s). snd p < nxt s))"

subsection \<open>A process killed between the log and the data file\<close>

text \<open>
  The engine at the moment a mutating call has appended its operation to the log and has
  not yet reached \<open>saveData\<close>; only its files survive the process.  A call that throws
  before it writes the log leaves the files as they are.
\<close>

fun killed :: "json_engine \<Rightarrow> call \<Rightarrow> json_engine" where
  "killed s (Insert d uid now) = writeToWAL s (''insert'', stamp_insert d uid now)"
| "killed s (Update i d now) =
     (case json_get s i of
        (None, s1) \<Rightarrow> s1
      | (Some e, s1) \<Rightarrow>
          writeToWAL s1 (''update'', updatedData (heap s1 e) d now))"
| "killed s (Delete i now) =
     (case json_get s i of
        (None, s1) \<Rightarrow> s1
      | (Some e, s1) \<Rightarrow> writeToWAL s1 (''delete'', [(''id'', i)]))"
| "killed s c = s"

text \<open>A new process on the files the old one left: the constructor, then \<open>init\<close>.\<close>

definition restart :: "json_engine \<Rightarrow> (nat \<Rightarrow> string) \<Rightarrow> json_engine" where
  "restart s clock = json_init (json_new (cacheSize s) (dataFile s) (walFile s)) clock"

text \<open>
  Two ways a sequence of calls can be interrupted.  In \<open>killed_in_last\<close> the calls run to
  completion but for the last one, during which the process is killed; a new process then
  starts.  In \<open>killed_in_each\<close> the process is killed during every call and a new process
  starts before the next one.
\<close>

fun killed_in_last :: "json_engine \<Rightarrow> call list \<Rightarrow> (nat \<Rightarrow> string) \<Rightarrow> json_engine" where
  "killed_in_last s [] clock = s"
| "killed_in_last s [c] clock = restart (killed s c) clock"
| "killed_in_last s (c # cs) clock = killed_in_last (json_step s c) cs clock"

fun killed_in_each :: "json_engine \<Rightarrow> call list \<Rightarrow> (nat \<Rightarrow> string) \<Rightarrow> json_engine" where
  "killed_in_each s [] clock = s"
| "killed_in_each s (c # cs) clock = killed_in_each (restart (killed s c) clock) cs clock"


section \<open>The scenario of the specification\<close>






text \<open>
  A run of calls in the style of \<open>Model.update\<close>, which passes the whole record with the
  changed fields spread over it, so that the update names the id it is called with; the id
  of the deleted record is then used again.
\<close>

definition coherent_calls :: "call list" where
  "coherent_calls =
     [Insert [(''id'', JStr ''a'')] ''u1'' ''t1'',
      Update (JStr ''a'')
        [(''id'', JStr ''a''), (''_created'', JStr ''t1''), (''_updated'', JStr ''t1''),
         (''x'', JNum 1)] ''t2'',
      Insert [(''y'', JNum 2)] ''u2'' ''t3'',
      Delete (JStr ''a'') ''t4'',
      Insert [(''id'', JStr ''a'')] ''u3'' ''t5'',
      Get (JStr ''u2'')]"

text \<open>
  Two records indexed on \<open>x\<close>; the first is updated in the style of \<open>Model.update\<close>, the
  second deleted.
\<close>

definition indexed_calls :: "call list" where
  "indexed_calls =
     [CreateIndex ''x'',
      Insert [(''id'', JStr ''a''), (''x'', JNum 1)] ''u1'' ''t1'',
      Insert [(''id'', JStr ''b''), (''x'', JNum 1)] ''u2'' ''t2'',
      Update (JStr ''a'')
        [(''id'', JStr ''a''), (''x'', JNum 2), (''_created'', JStr ''t1''),
         (''_updated'', JStr ''t1'')] ''t3'',
      Delete (JStr ''b'') ''t4'']"

text \<open>
  The id of a deleted record used again before \<open>compact()\<close>, and the new record updated.
\<close>

definition reused_id_calls :: "call list" where
  "reused_id_calls =
     [CreateIndex ''x'',
      Insert [(''id'', JStr ''a''), (''x'', JNum 1)] ''u1'' ''t1'',
      Delete (JStr ''a'') ''t2'',
      Insert [(''id'', JStr ''a''), (''x'', JNum 2)] ''u2'' ''t3'',
      Update (JStr ''a'') [(''x'', JNum 3)] ''t4'']"


section \<open>Backup files\<close>

text \<open>
  The data file holds the data array as \<open>saveData\<close> writes it.  \<open>insert\<close>, \<open>update\<close>,
  \<open>delete\<close>, \<open>compact\<close> and \<open>restore\<close> end with the file in this state.
\<close>

definition json_saved :: "json_engine \<Rightarrow> bool" where
  "json_saved s = (dataFile s = Some (map (\<lambda>r. json_rt_props (heap s r)) (data s)))"

text \<open>A list of properties is an object when no name occurs twice.\<close>

definition proper :: "obj \<Rightarrow> bool" where
  "proper ob = distinct (map fst ob)"

text \<open>
  A record whose tombstone the data file keeps: an object whose \<open>_deleted\<close>, if it has
  one, is not a function, which JSON does not write.
\<close>

definition storable :: "obj \<Rightarrow> bool" where
  "storable ob = (proper ob \<and> \<not> is_function (obj_get ob ''_deleted''))"

text \<open>
  Records that \<open>restore\<close> of the in-memory engine stores one by one under the id they
  carry: each has a truthy primitive id, and no two share one.
\<close>

definition restorable :: "obj list \<Rightarrow> bool" where
  "restorable recs =
     (list_all (\<lambda>ob. proper ob \<and> truthy (id_of ob) \<and> is_primitive (id_of ob)) recs
      \<and> distinct (map id_of recs))"

text \<open>
  A collection with the live record \<open>a\<close> and the deleted record \<open>b\<close>, in each engine, and
  the same collection emptied by \<open>delete("a")\<close> and \<open>compact()\<close>.
\<close>

definition two_records :: "call list" where
  "two_records =
     [Insert [(''id'', JStr ''a''), (''x'', JNum 1)] ''u1'' ''t1'',
      Insert [(''id'', JStr ''b'')] ''u2'' ''t2'',
      Delete (JStr ''b'') ''t3'']"

definition emptied :: "call list" where
  "emptied = [Delete (JStr ''a'') ''t4'', Compact]"

definition json_before :: json_engine where
  "json_before = json_run (json_new 0 None None) two_records"

definition json_emptied :: json_engine where
  "json_emptied = json_run json_before emptied"

definition mem_before :: mem_engine where
  "mem_before = mem_run (mem_new 0) two_records"

definition mem_emptied :: mem_engine where
  "mem_emptied = mem_run mem_before emptied"

section \<open>Properties of the cache\<close>

lemma map_set_fresh: "k \<notin> fst ` set ps \<Longrightarrow> map_set k v ps = ps @ [(k, v)]"
  by (induction ps) auto

lemma length_map_set_le: "length (map_set k v ps) \<le> Suc (length ps)"
  by (induction ps) auto

lemma map_set_keys: "fst ` set (map_set k v ps) = insert k (fst ` set ps)"
  by (induction ps) auto

lemma setToCache_fresh:
  "k \<notin> fst ` set c \<Longrightarrow>
   setToCache n c k v = (if n \<le> length c then tl c else c) @ [(k, v)]"
  unfolding setToCache_def
  by (rule map_set_fresh) (cases c; auto)

lemma setAll_keeps_last:
  "distinct (map fst (c @ kvs)) \<Longrightarrow> length c \<le> n \<Longrightarrow> 0 < n \<Longrightarrow>
   setAll n c kvs = drop (length c + length kvs - n) (c @ kvs)"
proof (induction kvs arbitrary: c)
  case Nil
  then show ?case by simp
next
  case (Cons kv kvs)
  have fresh: "fst kv \<notin> fst ` set c" using Cons.prems(1) by auto
  show ?case
  proof (cases "n \<le> length c")
    case True
    then have len: "length c = n" using Cons.prems(2) by simp
    then obtain x c' where c: "c = x # c'" using Cons.prems(3) by (cases c) auto
    have step: "setToCache n c (fst kv) (snd kv) = c' @ [kv]"
      using fresh True c by (simp add: setToCache_fresh)
    have d: "distinct (map fst ((c' @ [kv]) @ kvs))" using Cons.prems(1) c by auto
    have "setAll n (c' @ [kv]) kvs = drop (length (c' @ [kv]) + length kvs - n) ((c' @ [kv]) @ kvs)"
      by (rule Cons.IH[OF d]) (use len c Cons.prems in auto)
    moreover have "n = Suc (length c')" using len c by simp
    ultimately show ?thesis using step c by simp
  next
    case False
    have step: "setToCache n c (fst kv) (snd kv) = c @ [kv]"
      using fresh False by (simp add: setToCache_fresh)
    have d: "distinct (map fst ((c @ [kv]) @ kvs))" using Cons.prems(1) by auto
    have "setAll n (c @ [kv]) kvs = drop (length (c @ [kv]) + length kvs - n) ((c @ [kv]) @ kvs)"
      by (rule Cons.IH[OF d]) (use False Cons.prems in auto)
    then show ?thesis using step False by simp
  qed
qed

lemma map_of_in_keys: "map_of c k = Some v \<Longrightarrow> k \<in> fst ` set c"
  by (metis map_of_SomeD fst_conv image_eqI)

lemma length_map_delete_lt: "k \<in> fst ` set c \<Longrightarrow> length (map_delete k c) < length c"
  unfolding map_delete_def by (auto intro: length_filter_less)

lemma length_setToCache: "0 < n \<Longrightarrow> length c \<le> n \<Longrightarrow> length (setToCache n c k v) \<le> n"
  unfolding setToCache_def
  using length_map_set_le[of k v "if n \<le> length c then tl c else c"]
  by (auto split: if_splits)

lemma length_getFromCache: "length (snd (getFromCache c k)) \<le> length c"
  unfolding getFromCache_def
  using length_map_delete_lt[of k c]
  by (auto split: option.splits dest!: map_of_in_keys simp: Suc_le_eq)

lemma map_of_map_set: "map_of (map_set k v ps) k' = (if k' = k then Some v else map_of ps k')"
  by (induction ps) auto

lemma map_of_snoc_fresh: "k \<notin> fst ` set d \<Longrightarrow> map_of (d @ [(k, v)]) k = Some v"
  by (induction d) auto

lemma map_delete_no_key: "k \<notin> fst ` set (map_delete k c)"
  by (auto simp: map_delete_def)

lemma promoted_survives:
  assumes "2 \<le> n" "map_of c k = Some v"
  shows "map_of (setToCache n (snd (getFromCache c k)) k' v') k = Some (if k' = k then v' else v)"
proof -
  let ?d = "map_delete k c"
  have g: "snd (getFromCache c k) = ?d @ [(k, v)]"
    using assms(2) by (simp add: getFromCache_def)
  have nk: "k \<notin> fst ` set ?d" by (rule map_delete_no_key)
  have "map_of (if n \<le> length (?d @ [(k, v)]) then tl (?d @ [(k, v)]) else ?d @ [(k, v)]) k = Some v"
  proof (cases "n \<le> length (?d @ [(k, v)])")
    case True
    then obtain x d' where d: "?d = x # d'" using assms(1) by (cases ?d) auto
    then have "k \<notin> fst ` set d'" using nk by auto
    then show ?thesis using True d by (simp add: map_of_snoc_fresh del: map_of_append)
  next
    case False
    then show ?thesis using nk by (simp add: map_of_snoc_fresh del: map_of_append)
  qed
  then show ?thesis
    unfolding setToCache_def g by (simp add: map_of_map_set)
qed

text \<open>
  Claim C8, as amended.  In a cache of capacity \<open>n > 0\<close>: storing \<open>n + 1\<close> entries with
  distinct ids into the empty cache leaves exactly the last \<open>n\<close> of them, so the first one
  stored, and no other, is evicted; storing a new id into a full cache evicts exactly the
  oldest entry; \<open>getFromCache\<close> on a cached id returns its item and moves the entry to the
  most-recently-used end; when the capacity is at least two, the entry just read is still
  cached after the next \<open>setToCache\<close>; and neither operation makes the cache hold more
  than \<open>n\<close> entries.
\<close>

theorem cache_lru:
  "0 < n \<longrightarrow>
     (distinct (map fst kvs) \<and> length kvs = Suc n \<longrightarrow> setAll n [] kvs = tl kvs)
   \<and> (length c = n \<and> k' \<notin> fst ` set c \<longrightarrow> setToCache n c k' v' = tl c @ [(k', v')])
   \<and> (map_of c k = Some v \<longrightarrow> getFromCache c k = (Some v, map_delete k c @ [(k, v)]))
   \<and> (2 \<le> n \<and> map_of c k = Some v \<longrightarrow>
        map_of (setToCache n (snd (getFromCache c k)) k' v') k = Some (if k' = k then v' else v))
   \<and> (length c \<le> n \<longrightarrow>
        length (setToCache n c k v) \<le> n \<and> length (snd (getFromCache c k)) \<le> n)"
proof (intro impI conjI)
  assume n: "0 < n"
  { assume a: "distinct (map fst kvs) \<and> length kvs = Suc n"
    have "setAll n [] kvs = drop (length ([]::'a cache) + length kvs - n) ([] @ kvs)"
      by (rule setAll_keeps_last) (use a n in auto)
    then show "setAll n [] kvs = tl kvs" using a by (simp add: drop_Suc) }
  { assume "length c = n \<and> k' \<notin> fst ` set c"
    then show "setToCache n c k' v' = tl c @ [(k', v')]"
      by (simp add: setToCache_fresh) }
  { assume "map_of c k = Some v"
    then show "getFromCache c k = (Some v, map_delete k c @ [(k, v)])"
      by (simp add: getFromCache_def) }
  { assume a: "2 \<le> n \<and> map_of c k = Some v"
    then show "map_of (setToCache n (snd (getFromCache c k)) k' v') k = Some (if k' = k then v' else v)"
      by (simp add: promoted_survives) }
  { assume "length c \<le> n"
    then show "length (setToCache n c k v) \<le> n" using n by (rule length_setToCache[rotated])
    show "length (snd (getFromCache c k)) \<le> n"
      using length_getFromCache[of c k] \<open>length c \<le> n\<close> by simp }
qed



theorem cache_lru_witness:
  "setAll 2 [] [(JStr ''a'', 1::nat), (JStr ''b'', 2), (JStr ''c'', 3)] = [(JStr ''b'', 2), (JStr ''c'', 3)]
   \<and> getFromCache [(JStr ''a'', 1::nat), (JStr ''b'', 2)] (JStr ''a'') = (Some 1, [(JStr ''b'', 2), (JStr ''a'', 1)])
   \<and> map_of (setToCache 2 (snd (getFromCache [(JStr ''a'', 1::nat), (JStr ''b'', 2)] (JStr ''a''))) (JStr ''c'') 3)
        (JStr ''a'') = Some 1
   \<and> length (setToCache 2 [(JStr ''a'', 1::nat), (JStr ''b'', 2)] (JStr ''a'') 1) \<le> 2"
  using cache_lru [of 2 "[(JStr ''a'', 1::nat), (JStr ''b'', 2), (JStr ''c'', 3)]"
      "[(JStr ''a'', 1::nat), (JStr ''b'', 2)]" "JStr ''c''" 3 "JStr ''a''" 1]
  by (simp add: getFromCache_def setToCache_def map_delete_def)

text \<open>
  With capacity one the entry that was just read is the oldest one as well, and the next
  \<open>setToCache\<close> of another id evicts it: the read does not protect it.
\<close>

theorem cache_capacity_one_counterexample:
  "getFromCache [(JStr ''a'', 1::nat)] (JStr ''a'') = (Some 1, [(JStr ''a'', 1)])
   \<and> setToCache 1 (snd (getFromCache [(JStr ''a'', 1::nat)] (JStr ''a''))) (JStr ''b'') 2 = [(JStr ''b'', 2)]"
  by (simp add: getFromCache_def setToCache_def map_delete_def)


section \<open>Properties of objects\<close>

lemma obj_get_map_set: "obj_get (map_set k v ob) k' = (if k' = k then v else obj_get ob k')"
  by (simp add: obj_get_def map_of_map_set)

lemma map_of_spread:
  "map_of (spread a b) k = (case map_of (rev b) k of Some v \<Rightarrow> Some v | None \<Rightarrow> map_of a k)"
  unfolding spread_def
proof (induction b arbitrary: a)
  case Nil
  then show ?case by simp
next
  case (Cons p b)
  show ?case
    by (cases p) (auto simp: Cons.IH map_of_map_set split: option.splits)
qed

lemma obj_get_Cons: "obj_get (p # ps) k = (if fst p = k then snd p else obj_get ps k)"
  by (cases p) (simp add: obj_get_def)

lemma obj_get_spread:
  "obj_get (spread a b) k = (case map_of (rev b) k of Some v \<Rightarrow> v | None \<Rightarrow> obj_get a k)"
  by (simp add: obj_get_def map_of_spread split: option.splits)

lemma own_names:
  "''id'' \<notin> set object_prototype" "''_deleted'' \<notin> set object_prototype"
  "''_deleted_at'' \<notin> set object_prototype" "''_created'' \<notin> set object_prototype"
  "''_updated'' \<notin> set object_prototype"
  by (simp_all add: object_prototype_def)

lemma obj_get_absent:
  "k \<notin> fst ` set ob \<Longrightarrow> k \<notin> set object_prototype \<Longrightarrow> obj_get ob k = JUndef"
proof -
  assume "k \<notin> fst ` set ob" and p: "k \<notin> set object_prototype"
  then have "map_of ob k = None" by (simp add: map_of_eq_None_iff)
  then show ?thesis using p by (simp add: obj_get_def)
qed

lemma obj_get_spread_other: "k \<notin> fst ` set b \<Longrightarrow> obj_get (spread a b) k = obj_get a k"
proof -
  assume "k \<notin> fst ` set b"
  then have "map_of (rev b) k = None" by (simp add: map_of_eq_None_iff)
  then show ?thesis by (simp add: obj_get_def map_of_spread)
qed

lemma obj_get_spread_named:
  "distinct (map fst b) \<Longrightarrow> map_of b k = Some v \<Longrightarrow> obj_get (spread a b) k = v"
proof -
  assume d: "distinct (map fst b)" and m: "map_of b k = Some v"
  have "map_of (rev b) k = Some v"
    using d m by (metis distinct_rev map_of_is_SomeI map_of_SomeD rev_map set_rev)
  then show ?thesis by (simp add: obj_get_def map_of_spread)
qed

lemma strict_eq_imp_eq: "strict_eq a b \<Longrightarrow> a = b"
  by (cases a) auto

lemma strict_eq_primitive: "is_primitive a \<Longrightarrow> strict_eq a b = (a = b)"
  by (cases a) (auto simp: is_primitive_def)

lemma is_deleted_mark: "is_deleted (mark_deleted ob now)"
  by (simp add: is_deleted_def mark_deleted_def obj_get_map_set)

section \<open>The calls as state updates\<close>

text \<open>
  Each call written as one update of the engine it starts from.  These equations follow
  from the definitions by unfolding; concrete sequences of calls are evaluated with them.
\<close>

lemma json_get_eq:
  "json_get s i =
     (case map_of (cache s) i of
        Some r \<Rightarrow> (Some r, s\<lparr>cache := map_delete i (cache s) @ [(i, r)]\<rparr>)
      | None \<Rightarrow>
          (case List.find (\<lambda>r. strict_eq (id_of (heap s r)) i \<and> \<not> is_deleted (heap s r)) (data s) of
             Some r \<Rightarrow> (Some r, s\<lparr>cache := setToCache (cacheSize s) (cache s) i r\<rparr>)
           | None \<Rightarrow> (None, s)))"
  by (simp add: json_get_def getFromCache_def split: option.splits)

lemma json_get_same:
  assumes "json_get s i = (res, s1)"
  shows "heap s1 = heap s" "data s1 = data s" "nxt s1 = nxt s" "indexes s1 = indexes s"
    "dataFile s1 = dataFile s" "walFile s1 = walFile s" "cacheSize s1 = cacheSize s"
  using assms by (auto simp: json_get_eq split: option.splits)

lemma json_insert_eq:
  "json_insert s d0 uid now =
     (nxt s,
      s\<lparr>heap := (heap s)(nxt s := stamp_insert d0 uid now),
        nxt := Suc (nxt s),
        indexes := map (index_insert (stamp_insert d0 uid now)) (indexes s),
        cache := setToCache (cacheSize s) (cache s) (id_of (stamp_insert d0 uid now)) (nxt s),
        data := data s @ [nxt s],
        dataFile := Some (map (\<lambda>r. json_rt_props (((heap s)(nxt s := stamp_insert d0 uid now)) r))
                          (data s @ [nxt s])),
        walFile := Some ((case walFile s of None \<Rightarrow> [] | Some w \<Rightarrow> w)
                          @ [(''insert'', json_rt_props (stamp_insert d0 uid now))])\<rparr>)"
  by (simp add: json_insert_def Let_def writeToWAL_def saveData_def)

lemma json_update_eq:
  "json_update s0 i d now =
     (case json_get s0 i of
        (None, s) \<Rightarrow> (Inl (NotFound i), s)
      | (Some e, s) \<Rightarrow>
          (Inr (nxt s),
           s\<lparr>heap := (heap s)(nxt s := updatedData (heap s e) d now),
             nxt := Suc (nxt s),
             indexes := map (index_update (heap s e) d (updatedData (heap s e) d now) i) (indexes s),
             cache := setToCache (cacheSize s) (cache s) i (nxt s),
             data := (case findIndex (\<lambda>x. strict_eq (id_of (((heap s)(nxt s := updatedData (heap s e) d now)) x)) i) (data s) of
                        None \<Rightarrow> data s | Some n \<Rightarrow> (data s)[n := nxt s]),
             dataFile := Some (map (\<lambda>r. json_rt_props (((heap s)(nxt s := updatedData (heap s e) d now)) r))
                (case findIndex (\<lambda>x. strict_eq (id_of (((heap s)(nxt s := updatedData (heap s e) d now)) x)) i) (data s) of
                        None \<Rightarrow> data s | Some n \<Rightarrow> (data s)[n := nxt s])),
             walFile := Some ((case walFile s of None \<Rightarrow> [] | Some w \<Rightarrow> w)
                          @ [(''update'', json_rt_props (updatedData (heap s e) d now))])\<rparr>))"
  by (simp add: json_update_def Let_def writeToWAL_def saveData_def
           split: prod.splits option.splits)

lemma json_delete_eq:
  "json_delete s0 i now =
     (case json_get s0 i of
        (None, s) \<Rightarrow> (Inl (NotFound i), s)
      | (Some e, s) \<Rightarrow>
          (Inr True,
           s\<lparr>heap := (heap s)(e := mark_deleted (heap s e) now),
             indexes := map (index_delete (mark_deleted (heap s e) now) i) (indexes s),
             cache := map_delete i (cache s),
             data := (case findIndex (\<lambda>x. strict_eq (id_of (((heap s)(e := mark_deleted (heap s e) now)) x)) i) (data s) of
                        None \<Rightarrow> data s | Some n \<Rightarrow> (data s)[n := e]),
             dataFile := Some (map (\<lambda>r. json_rt_props (((heap s)(e := mark_deleted (heap s e) now)) r))
                (case findIndex (\<lambda>x. strict_eq (id_of (((heap s)(e := mark_deleted (heap s e) now)) x)) i) (data s) of
                        None \<Rightarrow> data s | Some n \<Rightarrow> (data s)[n := e])),
             walFile := Some ((case walFile s of None \<Rightarrow> [] | Some w \<Rightarrow> w)
                          @ [(''delete'', json_rt_props [(''id'', i)])])\<rparr>))"
  by (simp add: json_delete_def Let_def writeToWAL_def saveData_def
           split: prod.splits option.splits)

lemma mem_get_eq:
  "mem_get s i =
     (case map_of (cache s) i of
        Some r \<Rightarrow> (Some r, s\<lparr>cache := map_delete i (cache s) @ [(i, r)]\<rparr>)
      | None \<Rightarrow>
          (case map_of (mdata s) i of
             None \<Rightarrow> (None, s)
           | Some r \<Rightarrow>
               (if \<not> is_deleted (heap s r)
                then (Some r, s\<lparr>cache := setToCache (cacheSize s) (cache s) i r\<rparr>)
                else (None, s))))"
  by (simp add: mem_get_def getFromCache_def split: option.splits)

lemma mem_insert_eq:
  "mem_insert s d0 uid now =
     (nxt s,
      s\<lparr>heap := (heap s)(nxt s := stamp_insert d0 uid now),
        nxt := Suc (nxt s),
        indexes := map (index_insert (stamp_insert d0 uid now)) (indexes s),
        cache := setToCache (cacheSize s) (cache s) (id_of (stamp_insert d0 uid now)) (nxt s),
        mdata := map_set (id_of (stamp_insert d0 uid now)) (nxt s) (mdata s)\<rparr>)"
  by (simp add: mem_insert_def Let_def)

lemma mem_update_eq:
  "mem_update s0 i d now =
     (case mem_get s0 i of
        (None, s) \<Rightarrow> (Inl (NotFound i), s)
      | (Some e, s) \<Rightarrow>
          (Inr (nxt s),
           s\<lparr>heap := (heap s)(nxt s := updatedData (heap s e) d now),
             nxt := Suc (nxt s),
             indexes := map (index_update (heap s e) d (updatedData (heap s e) d now) i) (indexes s),
             cache := setToCache (cacheSize s) (cache s) i (nxt s),
             mdata := map_set i (nxt s) (mdata s)\<rparr>))"
  by (simp add: mem_update_def Let_def split: prod.splits option.splits)

lemma mem_delete_eq:
  "mem_delete s0 i now =
     (case mem_get s0 i of
        (None, s) \<Rightarrow> (Inl (NotFound i), s)
      | (Some e, s) \<Rightarrow>
          (Inr True,
           s\<lparr>heap := (heap s)(e := mark_deleted (heap s e) now),
             indexes := map (index_delete (mark_deleted (heap s e) now) i) (indexes s),
             cache := map_delete i (cache s)\<rparr>))"
  by (simp add: mem_delete_def Let_def split: prod.splits option.splits)

lemma load_data: "data (load obs s) = data s @ [nxt s..<nxt s + length obs]"
proof (induction obs arbitrary: s)
  case Nil
  then show ?case by simp
next
  case (Cons ob obs)
  have "[nxt s..<nxt s + length (ob # obs)] = nxt s # [Suc (nxt s)..<Suc (nxt s) + length obs]"
    by (simp add: upt_conv_Cons del: upt_Suc)
  then show ?case by (simp add: Cons.IH del: upt_Suc)
qed

lemma load_nxt: "nxt (load obs s) = nxt s + length obs"
  by (induction obs arbitrary: s) auto

lemma load_heap:
  "heap (load obs s) r =
     (if nxt s \<le> r \<and> r < nxt s + length obs then obs ! (r - nxt s) else heap s r)"
proof (induction obs arbitrary: s r)
  case Nil
  then show ?case by auto
next
  case (Cons ob obs)
  show ?case
    by (cases "r = nxt s") (auto simp: Cons.IH Suc_diff_le nth_Cons')
qed

lemma load_same:
  "cache (load obs s) = cache s" "indexes (load obs s) = indexes s"
  "cacheSize (load obs s) = cacheSize s" "dataFile (load obs s) = dataFile s"
  "walFile (load obs s) = walFile s"
  by (induction obs arbitrary: s) auto

lemma load_values:
  "map (heap (load obs s)) [nxt s..<nxt s + length obs] = obs"
  by (rule nth_equalityI) (simp_all add: load_heap)

lemmas engine_eval =
  json_new_def mem_new_def init_cacheSize_def json_insert_eq json_update_eq json_delete_eq
  json_get_eq mem_insert_eq mem_update_eq mem_delete_eq mem_get_eq
  stamp_insert_def updatedData_def mark_deleted_def id_of_def is_deleted_def
  obj_get_def object_prototype_def setToCache_def map_delete_def spread_def Let_def

lemmas run_eval =
  engine_eval json_compact_def json_createIndex_def json_restore_def json_init_def
  mem_compact_def mem_createIndex_def mem_restore_def without_def clearCache_def rebuild_all_def
  json_find_def mem_find_def json_live_def mem_live_def json_recs_def mem_recs_def restart_def
  applyOperation_def writeToWAL_def saveData_def




section \<open>The filter of \<open>find\<close> against the contract\<close>



lemma entries_not_object: "\<not> is_object v \<Longrightarrow> entries v = []"
  by (cases v) auto











subsection \<open>Operator keys that no case matches\<close>














section \<open>Single calls of the file-backed engine\<close>

lemma json_get_miss:
  assumes "map_of (cache s) i = None"
    and "\<forall>r\<in>set (data s). strict_eq (id_of (heap s r)) i \<longrightarrow> is_deleted (heap s r)"
  shows "json_get s i = (None, s)"
  using assms by (auto simp: json_get_def getFromCache_def find_None_iff split: option.splits)

lemma filter_err_subset: "filter_err p xs = Inr ys \<Longrightarrow> set ys \<subseteq> set xs"
proof (induction xs arbitrary: ys)
  case Nil
  then show ?case by simp
next
  case (Cons x xs)
  then show ?case by (auto split: sum.splits if_splits)
qed

lemma json_query_subset: "json_query env h q rs = Inr rs' \<Longrightarrow> set rs' \<subseteq> set rs"
proof (induction q arbitrary: rs)
  case Nil
  then show ?case by simp
next
  case (Cons p q)
  then show ?case
    by (auto split: if_splits sum.splits dest!: filter_err_subset)
qed

lemma json_find_live:
  "json_find env s q = Inr rs \<Longrightarrow> r \<in> set rs \<Longrightarrow> r \<in> set (data s) \<and> \<not> is_deleted (heap s r)"
  unfolding json_find_def by (drule json_query_subset) auto

lemma json_compact_length:
  "length (data (snd (json_compact s))) = length (filter (\<lambda>r. \<not> is_deleted (heap s r)) (data s))"
  by (simp add: json_compact_def Let_def load_data clearCache_def filter_map comp_def)

lemma set_list_update_subset: "set (xs[n := x]) \<subseteq> insert x (set xs)"
  by (rule set_update_subset_insert)

lemma json_delete_effect:
  assumes "json_delete s i now = (Inr True, s')"
  obtains e s1 where "json_get s i = (Some e, s1)"
    "heap s' = (heap s)(e := mark_deleted (heap s e) now)"
    "length (data s') = length (data s)" "set (data s') \<subseteq> insert e (set (data s))"
    "cache s' = map_delete i (cache s1)" "cacheSize s' = cacheSize s"
proof -
  from assms obtain e s1 where g: "json_get s i = (Some e, s1)"
    by (auto simp: json_delete_def split: prod.splits option.splits)
  note same = json_get_same[OF g]
  have "heap s' = (heap s)(e := mark_deleted (heap s e) now)"
    "length (data s') = length (data s)" "set (data s') \<subseteq> insert e (set (data s))"
    "cache s' = map_delete i (cache s1)" "cacheSize s' = cacheSize s"
    using assms g same
    by (auto simp: json_delete_def Let_def writeToWAL_def saveData_def
             split: option.splits dest: set_update_subset_insert[THEN subsetD])
  then show ?thesis using that g by blast
qed

text \<open>
  Claim C5, as amended.  The record an \<open>update\<close> returns has the id of the record it
  updates when the \<open>data\<close> argument has no \<open>id\<close> property; when \<open>data\<close> has one, the
  record takes that id.  In both engines.
\<close>

theorem update_keeps_or_takes_id:
  "(json_update s i d now = (Inr r, s') \<longrightarrow>
      (\<exists>e. fst (json_get s i) = Some e \<and>
        (''id'' \<notin> fst ` set d \<longrightarrow> id_of (heap s' r) = id_of (heap s e)) \<and>
        (\<forall>v. distinct (map fst d) \<and> map_of d ''id'' = Some v \<longrightarrow> id_of (heap s' r) = v)))
   \<and> (mem_update m i d now = (Inr r, m') \<longrightarrow>
      (\<exists>e. fst (mem_get m i) = Some e \<and>
        (''id'' \<notin> fst ` set d \<longrightarrow> id_of (heap m' r) = id_of (heap m e)) \<and>
        (\<forall>v. distinct (map fst d) \<and> map_of d ''id'' = Some v \<longrightarrow> id_of (heap m' r) = v)))"
proof (intro conjI impI)
  assume u: "json_update s i d now = (Inr r, s')"
  then obtain e s1 where g: "json_get s i = (Some e, s1)"
    by (auto simp: json_update_def split: prod.splits option.splits)
  have h: "heap s1 = heap s"
    using g by (auto simp: json_get_def split: prod.splits option.splits)
  have r: "heap s' r = map_set ''_updated'' (JStr now) (spread (heap s e) d)"
    using u g h
    by (auto simp: json_update_def Let_def writeToWAL_def saveData_def updatedData_def
             split: option.splits)
  show "\<exists>e. fst (json_get s i) = Some e \<and>
        (''id'' \<notin> fst ` set d \<longrightarrow> id_of (heap s' r) = id_of (heap s e)) \<and>
        (\<forall>v. distinct (map fst d) \<and> map_of d ''id'' = Some v \<longrightarrow> id_of (heap s' r) = v)"
    using g r
    by (auto simp: id_of_def obj_get_map_set obj_get_spread_other obj_get_spread_named)
next
  assume u: "mem_update m i d now = (Inr r, m')"
  then obtain e m1 where g: "mem_get m i = (Some e, m1)"
    by (auto simp: mem_update_def split: prod.splits option.splits)
  have h: "heap m1 = heap m"
    using g by (auto simp: mem_get_def split: prod.splits option.splits if_splits)
  have r: "heap m' r = map_set ''_updated'' (JStr now) (spread (heap m e) d)"
    using u g h
    by (auto simp: mem_update_def Let_def updatedData_def split: option.splits)
  show "\<exists>e. fst (mem_get m i) = Some e \<and>
        (''id'' \<notin> fst ` set d \<longrightarrow> id_of (heap m' r) = id_of (heap m e)) \<and>
        (\<forall>v. distinct (map fst d) \<and> map_of d ''id'' = Some v \<longrightarrow> id_of (heap m' r) = v)"
    using g r
    by (auto simp: id_of_def obj_get_map_set obj_get_spread_other obj_get_spread_named)
qed

text \<open>
  A record inserted under the id \<open>a\<close> and updated with \<open>{id: "b"}\<close> is stored with the id
  \<open>b\<close>, in both engines.
\<close>

theorem update_changes_id_counterexample:
  "json_live (json_run (json_new 0 None None) [Insert [(''id'', JStr ''a'')] ''u'' ''t1''])
     = [[(''id'', JStr ''a''), (''_created'', JStr ''t1''), (''_updated'', JStr ''t1'')]]
   \<and> json_live (json_run (json_new 0 None None)
        [Insert [(''id'', JStr ''a'')] ''u'' ''t1'', Update (JStr ''a'') [(''id'', JStr ''b'')] ''t2''])
     = [[(''id'', JStr ''b''), (''_created'', JStr ''t1''), (''_updated'', JStr ''t2'')]]
   \<and> mem_live (mem_run (mem_new 0)
        [Insert [(''id'', JStr ''a'')] ''u'' ''t1'', Update (JStr ''a'') [(''id'', JStr ''b'')] ''t2''])
     = [(JStr ''a'', [(''id'', JStr ''b''), (''_created'', JStr ''t1''), (''_updated'', JStr ''t2'')])]"
  by (simp add: run_eval)

theorem update_keeps_or_takes_id_witness:
  "fst (json_update (json_run (json_new 0 None None) [Insert [(''id'', JStr ''a'')] ''u'' ''t1''])
         (JStr ''a'') [(''x'', JNum 1)] ''t2'') = Inr 1
   \<and> id_of (heap (snd (json_update (json_run (json_new 0 None None) [Insert [(''id'', JStr ''a'')] ''u'' ''t1''])
         (JStr ''a'') [(''x'', JNum 1)] ''t2'')) 1) = JStr ''a''
   \<and> fst (mem_update (mem_run (mem_new 0) [Insert [(''id'', JStr ''a'')] ''u'' ''t1''])
         (JStr ''a'') [(''id'', JStr ''b'')] ''t2'') = Inr 1
   \<and> id_of (heap (snd (mem_update (mem_run (mem_new 0) [Insert [(''id'', JStr ''a'')] ''u'' ''t1''])
         (JStr ''a'') [(''id'', JStr ''b'')] ''t2'')) 1) = JStr ''b''"
  using update_keeps_or_takes_id
    [where s = "json_run (json_new 0 None None) [Insert [(''id'', JStr ''a'')] ''u'' ''t1'']"
       and i = "JStr ''a''" and d = "[(''x'', JNum 1)]" and now = "''t2''" and r = 1
       and s' = "snd (json_update (json_run (json_new 0 None None) [Insert [(''id'', JStr ''a'')] ''u'' ''t1''])
         (JStr ''a'') [(''x'', JNum 1)] ''t2'')"]
    update_keeps_or_takes_id
    [where m = "mem_run (mem_new 0) [Insert [(''id'', JStr ''a'')] ''u'' ''t1'']"
       and i = "JStr ''a''" and d = "[(''id'', JStr ''b'')]" and now = "''t2''" and r = 1
       and m' = "snd (mem_update (mem_run (mem_new 0) [Insert [(''id'', JStr ''a'')] ''u'' ''t1''])
         (JStr ''a'') [(''id'', JStr ''b'')] ''t2'')"]
  by (simp add: run_eval)


text \<open>
  Claim C7, as amended.  For an id that is not a key of the cache and is the id of no live
  record of the data array, \<open>update\<close> and \<open>delete\<close> throw the not-found error and leave
  the engine as it was: records, files, indexes and cache.
\<close>

theorem update_delete_not_found:
  "map_of (cache s) i = None \<and>
   (\<forall>r\<in>set (data s). strict_eq (id_of (heap s r)) i \<longrightarrow> is_deleted (heap s r)) \<longrightarrow>
     json_update s i d now = (Inl (NotFound i), s) \<and> json_delete s i now = (Inl (NotFound i), s)"
  by (auto simp: json_update_def json_delete_def json_get_miss)

text \<open>
  After \<open>update("a", {id: "b"})\<close> the only stored record has the id \<open>b\<close>, but the cache
  still answers for \<open>a\<close>: \<open>update("a", ...)\<close> and \<open>delete("a")\<close> both succeed.
\<close>

theorem update_delete_not_found_counterexample:
  "map (\<lambda>r. id_of (heap (json_run (json_new 0 None None)
            [Insert [(''id'', JStr ''a'')] ''u'' ''t1'', Update (JStr ''a'') [(''id'', JStr ''b'')] ''t2'']) r))
       (data (json_run (json_new 0 None None)
            [Insert [(''id'', JStr ''a'')] ''u'' ''t1'', Update (JStr ''a'') [(''id'', JStr ''b'')] ''t2'']))
     = [JStr ''b'']
   \<and> fst (json_update (json_run (json_new 0 None None)
            [Insert [(''id'', JStr ''a'')] ''u'' ''t1'', Update (JStr ''a'') [(''id'', JStr ''b'')] ''t2''])
          (JStr ''a'') [(''x'', JNum 1)] ''t3'') = Inr 2
   \<and> fst (json_delete (json_run (json_new 0 None None)
            [Insert [(''id'', JStr ''a'')] ''u'' ''t1'', Update (JStr ''a'') [(''id'', JStr ''b'')] ''t2''])
          (JStr ''a'') ''t3'') = Inr True"
  by (simp add: run_eval)

theorem update_delete_not_found_witness:
  "map_of (cache (json_run (json_new 0 None None)
        [Insert [(''id'', JStr ''a'')] ''u'' ''t1'', Delete (JStr ''a'') ''t2''])) (JStr ''a'') = None
   \<and> fst (json_update (json_run (json_new 0 None None)
        [Insert [(''id'', JStr ''a'')] ''u'' ''t1'', Delete (JStr ''a'') ''t2''])
        (JStr ''a'') [(''x'', JNum 1)] ''t3'') = Inl (NotFound (JStr ''a''))
   \<and> fst (json_delete (json_run (json_new 0 None None)
        [Insert [(''id'', JStr ''a'')] ''u'' ''t1'', Delete (JStr ''a'') ''t2''])
        (JStr ''b'') ''t3'') = Inl (NotFound (JStr ''b''))
   \<and> json_live (snd (json_update (json_run (json_new 0 None None)
        [Insert [(''id'', JStr ''a'')] ''u'' ''t1'', Delete (JStr ''a'') ''t2''])
        (JStr ''a'') [(''x'', JNum 1)] ''t3'')) = []"
  using update_delete_not_found
    [where s = "json_run (json_new 0 None None)
        [Insert [(''id'', JStr ''a'')] ''u'' ''t1'', Delete (JStr ''a'') ''t2'']"
       and i = "JStr ''a''" and d = "[(''x'', JNum 1)]" and now = "''t3''"]
    update_delete_not_found
    [where s = "json_run (json_new 0 None None)
        [Insert [(''id'', JStr ''a'')] ''u'' ''t1'', Delete (JStr ''a'') ''t2'']"
       and i = "JStr ''b''" and d = "[]" and now = "''t3''"]
  by (simp add: run_eval)

lemma length_data_step:
  "\<not> writes_anew c \<Longrightarrow> length (data s) \<le> length (data (json_step s c))"
proof (cases c)
  case (Insert d uid now)
  then show ?thesis by (simp add: json_insert_eq)
next
  case (Update i d now)
  obtain res s1 where g: "json_get s i = (res, s1)" by fastforce
  then show ?thesis
    using Update json_get_same(2)[OF g]
    by (cases res) (auto simp: json_update_eq split: option.splits)
next
  case (Delete i now)
  obtain res s1 where g: "json_get s i = (res, s1)" by fastforce
  then show ?thesis
    using Delete json_get_same(2)[OF g]
    by (cases res) (auto simp: json_delete_eq split: option.splits)
next
  case (Get i)
  obtain res s1 where g: "json_get s i = (res, s1)" by fastforce
  then show ?thesis using Get json_get_same(2)[OF g] by simp
next
  case (CreateIndex f)
  then show ?thesis by (simp add: json_createIndex_def)
qed simp_all

lemma length_data_run:
  "\<not> list_ex writes_anew cs \<Longrightarrow> length (data s) \<le> length (data (json_run s cs))"
proof (induction cs arbitrary: s)
  case Nil
  then show ?case by simp
next
  case (Cons c cs)
  have "length (data s) \<le> length (data (json_step s c))"
    using Cons.prems by (simp add: length_data_step)
  also have "\<dots> \<le> length (data (json_run (json_step s c) cs))"
    using Cons.prems by (intro Cons.IH) simp
  finally show ?case by simp
qed

text \<open>
  Claim C4, as amended.  After a successful \<open>delete(id)\<close> the record it found is marked
  deleted in place and no \<open>find\<close> returns it; the data array is as long as before;
  \<open>get(id)\<close> returns \<open>null\<close> provided no other live record carries the same id;
  \<open>compact()\<close> leaves exactly the live records, so fewer than before when the deleted
  record was stored in the array; and no sequence of \<open>insert\<close>, \<open>update\<close>, \<open>delete\<close>,
  \<open>get\<close> and \<open>createIndex\<close> calls makes the data array shorter.  (Besides \<open>compact()\<close>,
  \<open>restore()\<close> writes the array anew, and \<open>init()\<close> removes a record when it replays a
  logged delete.)
\<close>

theorem soft_delete:
  "json_delete s i now = (Inr True, s') \<longrightarrow>
     (\<forall>cs. \<not> list_ex writes_anew cs \<longrightarrow> length (data s') \<le> length (data (json_run s' cs))) \<and>
     (\<exists>e. fst (json_get s i) = Some e \<and>
        length (data s') = length (data s) \<and>
        is_deleted (heap s' e) \<and>
        (\<forall>env q rs. json_find env s' q = Inr rs \<longrightarrow> e \<notin> set rs) \<and>
        ((\<forall>r\<in>set (data s). r \<noteq> e \<and> strict_eq (id_of (heap s r)) i \<longrightarrow> is_deleted (heap s r))
           \<longrightarrow> fst (json_get s' i) = None) \<and>
        length (data (snd (json_compact s'))) =
          length (filter (\<lambda>r. \<not> is_deleted (heap s' r)) (data s')) \<and>
        (e \<in> set (data s') \<longrightarrow> length (data (snd (json_compact s'))) < length (data s')))"
proof
  assume del: "json_delete s i now = (Inr True, s')"
  then obtain e s1 where g: "json_get s i = (Some e, s1)"
    and h: "heap s' = (heap s)(e := mark_deleted (heap s e) now)"
    and len: "length (data s') = length (data s)"
    and sub: "set (data s') \<subseteq> insert e (set (data s))"
    and c: "cache s' = map_delete i (cache s1)"
    by (rule json_delete_effect)
  have dead: "is_deleted (heap s' e)" by (simp add: h is_deleted_mark)
  have nofind: "\<forall>env q rs. json_find env s' q = Inr rs \<longrightarrow> e \<notin> set rs"
    using dead json_find_live by blast
  have getnone: "fst (json_get s' i) = None"
    if other: "\<forall>r\<in>set (data s). r \<noteq> e \<and> strict_eq (id_of (heap s r)) i \<longrightarrow> is_deleted (heap s r)"
  proof -
    have "map_of (cache s') i = None"
      unfolding c by (simp add: map_of_eq_None_iff map_delete_no_key)
    moreover have "\<forall>r\<in>set (data s'). strict_eq (id_of (heap s' r)) i \<longrightarrow> is_deleted (heap s' r)"
    proof (intro ballI impI)
      fix r assume r: "r \<in> set (data s')" and eq: "strict_eq (id_of (heap s' r)) i"
      show "is_deleted (heap s' r)"
      proof (cases "r = e")
        case True
        then show ?thesis using dead by simp
      next
        case False
        then have "r \<in> set (data s)" "heap s' r = heap s r" using r sub h by auto
        then show ?thesis using other eq False by auto
      qed
    qed
    ultimately show ?thesis by (simp add: json_get_miss)
  qed
  have shrink: "length (data (snd (json_compact s'))) < length (data s')" if "e \<in> set (data s')"
    unfolding json_compact_length using that dead by (auto intro: length_filter_less)
  have only: "\<forall>cs. \<not> list_ex writes_anew cs \<longrightarrow> length (data s') \<le> length (data (json_run s' cs))"
    by (simp add: length_data_run)
  have "\<exists>e. fst (json_get s i) = Some e \<and>
        length (data s') = length (data s) \<and>
        is_deleted (heap s' e) \<and>
        (\<forall>env q rs. json_find env s' q = Inr rs \<longrightarrow> e \<notin> set rs) \<and>
        ((\<forall>r\<in>set (data s). r \<noteq> e \<and> strict_eq (id_of (heap s r)) i \<longrightarrow> is_deleted (heap s r))
           \<longrightarrow> fst (json_get s' i) = None) \<and>
        length (data (snd (json_compact s'))) =
          length (filter (\<lambda>r. \<not> is_deleted (heap s' r)) (data s')) \<and>
        (e \<in> set (data s') \<longrightarrow> length (data (snd (json_compact s'))) < length (data s'))"
    using g len dead nofind getnone shrink json_compact_length by auto
  then show "(\<forall>cs. \<not> list_ex writes_anew cs \<longrightarrow> length (data s') \<le> length (data (json_run s' cs))) \<and>
     (\<exists>e. fst (json_get s i) = Some e \<and>
        length (data s') = length (data s) \<and>
        is_deleted (heap s' e) \<and>
        (\<forall>env q rs. json_find env s' q = Inr rs \<longrightarrow> e \<notin> set rs) \<and>
        ((\<forall>r\<in>set (data s). r \<noteq> e \<and> strict_eq (id_of (heap s r)) i \<longrightarrow> is_deleted (heap s r))
           \<longrightarrow> fst (json_get s' i) = None) \<and>
        length (data (snd (json_compact s'))) =
          length (filter (\<lambda>r. \<not> is_deleted (heap s' r)) (data s')) \<and>
        (e \<in> set (data s') \<longrightarrow> length (data (snd (json_compact s'))) < length (data s')))"
    using only by blast
qed

text \<open>
  Two records inserted under the same id \<open>a\<close>, then \<open>compact()\<close> (which clears the
  cache), then \<open>delete("a")\<close>: the delete succeeds and marks the first record, and
  \<open>get("a")\<close> returns the second.  And a record inserted and deleted is still in the data
  array, which a new process that runs \<open>init()\<close> on the files, or a \<open>restore()\<close> from an
  empty backup, leaves empty: \<open>compact()\<close> is not the only call that removes it.
\<close>

theorem soft_delete_counterexample:
  "fst (json_delete (json_run (json_new 0 None None)
          [Insert [(''id'', JStr ''a''), (''x'', JNum 1)] ''u1'' ''t1'',
           Insert [(''id'', JStr ''a''), (''x'', JNum 2)] ''u2'' ''t2'', Compact])
        (JStr ''a'') ''t3'') = Inr True
   \<and> fst (json_get (json_run (json_new 0 None None)
          [Insert [(''id'', JStr ''a''), (''x'', JNum 1)] ''u1'' ''t1'',
           Insert [(''id'', JStr ''a''), (''x'', JNum 2)] ''u2'' ''t2'', Compact,
           Delete (JStr ''a'') ''t3''])
        (JStr ''a'')) = Some 3
   \<and> heap (json_run (json_new 0 None None)
          [Insert [(''id'', JStr ''a''), (''x'', JNum 1)] ''u1'' ''t1'',
           Insert [(''id'', JStr ''a''), (''x'', JNum 2)] ''u2'' ''t2'', Compact,
           Delete (JStr ''a'') ''t3'']) 3
       = [(''id'', JStr ''a''), (''x'', JNum 2)]
   \<and> data (json_run (json_new 0 None None)
          [Insert [(''id'', JStr ''a'')] ''u1'' ''t1'', Delete (JStr ''a'') ''t2'']) = [0]
   \<and> data (restart (json_run (json_new 0 None None)
          [Insert [(''id'', JStr ''a'')] ''u1'' ''t1'', Delete (JStr ''a'') ''t2'']) (\<lambda>k. ''t9'')) = []
   \<and> data (snd (json_restore (json_run (json_new 0 None None)
          [Insert [(''id'', JStr ''a'')] ''u1'' ''t1'', Delete (JStr ''a'') ''t2'']) (Some []))) = []"
  by (simp add: run_eval)

theorem soft_delete_witness:
  "fst (json_delete (json_run (json_new 0 None None) [Insert [(''id'', JStr ''a'')] ''u'' ''t1''])
        (JStr ''a'') ''t2'') = Inr True
   \<and> fst (json_get (json_run (json_new 0 None None) [Insert [(''id'', JStr ''a'')] ''u'' ''t1''])
        (JStr ''a'')) = Some 0
   \<and> length (data (json_run (json_new 0 None None)
        [Insert [(''id'', JStr ''a'')] ''u'' ''t1'', Delete (JStr ''a'') ''t2''])) = 1
   \<and> fst (json_get (json_run (json_new 0 None None)
        [Insert [(''id'', JStr ''a'')] ''u'' ''t1'', Delete (JStr ''a'') ''t2'']) (JStr ''a'')) = None
   \<and> length (data (json_run (json_new 0 None None)
        [Insert [(''id'', JStr ''a'')] ''u'' ''t1'', Delete (JStr ''a'') ''t2'', Compact])) = 0
   \<and> 1 \<le> length (data (json_run (json_new 0 None None)
        [Insert [(''id'', JStr ''a'')] ''u'' ''t1'', Delete (JStr ''a'') ''t2'',
         Insert [(''id'', JStr ''b'')] ''u2'' ''t3'', Update (JStr ''b'') [(''x'', JNum 1)] ''t4'',
         Get (JStr ''a'')]))"
  using soft_delete
    [where s = "json_run (json_new 0 None None) [Insert [(''id'', JStr ''a'')] ''u'' ''t1'']"
       and i = "JStr ''a''" and now = "''t2''"
       and s' = "json_run (json_new 0 None None)
        [Insert [(''id'', JStr ''a'')] ''u'' ''t1'', Delete (JStr ''a'') ''t2'']"]
  by (simp add: run_eval)

section \<open>The cache as a list of entries\<close>

lemma set_map_set_subset: "set (map_set k v c) \<subseteq> insert (k, v) (set c)"
  by (induction c) auto

lemma distinct_map_set: "distinct (map fst c) \<Longrightarrow> distinct (map fst (map_set k v c))"
  by (induction c) (auto simp: map_set_keys)

lemma set_map_set_distinct:
  "distinct (map fst c) \<Longrightarrow> set (map_set k v c) = insert (k, v) {p \<in> set c. fst p \<noteq> k}"
proof (induction c)
  case Nil
  then show ?case by simp
next
  case (Cons p c)
  then show ?case by (cases p) (auto simp: image_iff)
qed

lemma distinct_tl_keys: "distinct (map fst c) \<Longrightarrow> distinct (map fst (tl c))"
  by (cases c) auto

lemma setToCache_distinct: "distinct (map fst c) \<Longrightarrow> distinct (map fst (setToCache n c k v))"
  by (simp add: setToCache_def distinct_map_set distinct_tl_keys)

lemma setToCache_entries:
  "distinct (map fst c) \<Longrightarrow> p \<in> set (setToCache n c k v) \<Longrightarrow>
   p = (k, v) \<or> (p \<in> set c \<and> fst p \<noteq> k)"
  unfolding setToCache_def
  by (cases c) (auto simp: set_map_set_distinct distinct_tl_keys split: if_splits)

lemma map_delete_distinct: "distinct (map fst c) \<Longrightarrow> distinct (map fst (map_delete k c))"
  by (simp add: map_delete_def distinct_map_filter)

lemma map_delete_entries: "p \<in> set (map_delete k c) \<longleftrightarrow> p \<in> set c \<and> fst p \<noteq> k"
  by (auto simp: map_delete_def)

lemma getFromCache_hit:
  assumes "getFromCache c k = (Some v, c')"
  shows "(k, v) \<in> set c" "c' = map_delete k c @ [(k, v)]"
  using assms by (auto simp: getFromCache_def split: option.splits dest: map_of_SomeD)

lemma getFromCache_miss:
  assumes "getFromCache c k = (None, c')"
  shows "c' = c" "map_of c k = None"
  using assms by (auto simp: getFromCache_def split: option.splits)

lemma promote_distinct:
  "distinct (map fst c) \<Longrightarrow> distinct (map fst (map_delete k c @ [(k, v)]))"
  using map_delete_no_key[of k c] by (simp add: map_delete_distinct)

lemma find_Some_unique:
  "r \<in> set xs \<Longrightarrow> P r \<Longrightarrow> (\<forall>x\<in>set xs. P x \<longrightarrow> x = r) \<Longrightarrow> List.find P xs = Some r"
proof (induction xs)
  case Nil
  then show ?case by simp
next
  case (Cons x xs)
  show ?case
  proof (cases "x = r")
    case True
    then show ?thesis using Cons.prems(2) by simp
  next
    case False
    have np: "\<not> P x" using False Cons.prems(3) by auto
    have rin: "r \<in> set xs" using False Cons.prems(1) by auto
    have "\<forall>y\<in>set xs. P y \<longrightarrow> y = r" using Cons.prems(3) by auto
    then have "List.find P xs = Some r" using Cons.IH rin Cons.prems(2) by blast
    then show ?thesis using np by simp
  qed
qed

lemma findIndex_Some:
  "findIndex P xs = Some n \<Longrightarrow> n < length xs \<and> P (xs ! n)"
proof (induction xs arbitrary: n)
  case Nil
  then show ?case by simp
next
  case (Cons x xs)
  then show ?case by (auto split: if_splits option.splits)
qed

lemma findIndex_None: "findIndex P xs = None \<longleftrightarrow> (\<forall>x\<in>set xs. \<not> P x)"
  by (induction xs) (auto split: option.splits)

lemma findIndex_unique:
  assumes "r \<in> set xs" "P r" "\<forall>x\<in>set xs. P x \<longrightarrow> x = r"
  obtains n where "findIndex P xs = Some n" "n < length xs" "xs ! n = r"
proof -
  have "findIndex P xs \<noteq> None" using assms by (auto simp: findIndex_None)
  then obtain n where n: "findIndex P xs = Some n" by auto
  then have l: "n < length xs" and p: "P (xs ! n)" using findIndex_Some by blast+
  have "xs ! n \<in> set xs" using l by simp
  then have "xs ! n = r" using assms(3) p by blast
  then show ?thesis using that n l by blast
qed

section \<open>The invariant of the file-backed engine\<close>

lemma id_of_stamp:
  "id_of (stamp_insert d uid now) = (if truthy (id_of d) then id_of d else JStr uid)"
  by (simp add: stamp_insert_def id_of_def obj_get_map_set Let_def)

lemma is_deleted_stamp: "is_deleted (stamp_insert d uid now) = is_deleted d"
  by (simp add: stamp_insert_def is_deleted_def obj_get_map_set Let_def)

lemma obj_get_updatedData:
  "k \<notin> fst ` set d \<Longrightarrow> k \<noteq> ''_updated'' \<Longrightarrow> obj_get (updatedData e d now) k = obj_get e k"
  by (simp add: updatedData_def obj_get_map_set obj_get_spread_other)

lemma id_of_updatedData: "''id'' \<notin> fst ` set d \<Longrightarrow> id_of (updatedData e d now) = id_of e"
  by (simp add: id_of_def obj_get_updatedData)

lemma id_of_updatedData_kept:
  assumes e: "id_of e = i" and d: "id_of (spread [(''id'', i)] d) = i"
  shows "id_of (updatedData e d now) = i"
proof (cases "map_of (rev d) ''id''")
  case None
  then show ?thesis
    using e by (simp add: id_of_def updatedData_def obj_get_map_set obj_get_spread)
next
  case (Some v)
  then have "v = i"
    using d by (simp add: id_of_def obj_get_spread)
  then show ?thesis
    using Some by (simp add: id_of_def updatedData_def obj_get_map_set obj_get_spread)
qed

lemma is_deleted_updatedData:
  "''_deleted'' \<notin> fst ` set d \<Longrightarrow> is_deleted (updatedData e d now) = is_deleted e"
  by (simp add: is_deleted_def obj_get_updatedData)

lemma live_updatedData:
  assumes e: "\<not> is_deleted e" and d: "\<not> is_deleted (spread [] d)"
  shows "\<not> is_deleted (updatedData e d now)"
proof (cases "map_of (rev d) ''_deleted''")
  case None
  then show ?thesis
    using e by (simp add: is_deleted_def updatedData_def obj_get_map_set obj_get_spread)
next
  case (Some v)
  then show ?thesis
    using d by (simp add: is_deleted_def updatedData_def obj_get_map_set obj_get_spread)
qed

lemma obj_get_mark:
  "k \<noteq> ''_deleted'' \<Longrightarrow> k \<noteq> ''_deleted_at'' \<Longrightarrow> obj_get (mark_deleted e now) k = obj_get e k"
  by (simp add: mark_deleted_def obj_get_map_set)

lemma id_of_mark: "id_of (mark_deleted e now) = id_of e"
  by (simp add: id_of_def obj_get_mark)

lemma json_get_inv:
  assumes inv: "json_inv s" and g: "json_get s i = (res, s1)"
  shows "json_inv s1"
    and "res = Some e \<Longrightarrow> e \<in> set (data s) \<and> id_of (heap s e) = i \<and> \<not> is_deleted (heap s e)"
    and "res = None \<Longrightarrow> s1 = s"
proof -
  note same = json_get_same[OF g]
  have dk: "distinct (map fst (cache s))"
    and ce: "\<And>p. p \<in> set (cache s) \<Longrightarrow>
          snd p \<in> set (data s) \<and> id_of (heap s (snd p)) = fst p \<and> \<not> is_deleted (heap s (snd p))"
    using inv by (auto simp: json_inv_def)
  show "res = None \<Longrightarrow> s1 = s"
    using g by (auto simp: json_get_eq split: option.splits)
  have found: "e' \<in> set (data s) \<and> id_of (heap s e') = i \<and> \<not> is_deleted (heap s e')"
    if "res = Some e'" for e'
  proof (cases "map_of (cache s) i")
    case None
    then have "List.find (\<lambda>r. strict_eq (id_of (heap s r)) i \<and> \<not> is_deleted (heap s r)) (data s) = Some e'"
      using g that by (auto simp: json_get_eq split: option.splits)
    then show ?thesis
      by (auto simp: find_Some_iff dest: strict_eq_imp_eq)
  next
    case (Some r)
    then have "r = e'" using g that by (auto simp: json_get_eq)
    moreover have "(i, r) \<in> set (cache s)" using Some by (rule map_of_SomeD)
    ultimately show ?thesis using ce[of "(i, r)"] by simp
  qed
  show "res = Some e \<Longrightarrow> e \<in> set (data s) \<and> id_of (heap s e) = i \<and> \<not> is_deleted (heap s e)"
    by (rule found)
  have c1: "distinct (map fst (cache s1))
      \<and> (\<forall>p\<in>set (cache s1). p \<in> set (cache s) \<or> (res = Some (snd p) \<and> fst p = i))"
  proof (cases "map_of (cache s) i")
    case None
    show ?thesis
    proof (cases res)
      case None
      then show ?thesis using g dk by (auto simp: json_get_eq split: option.splits)
    next
      case (Some r)
      then have "cache s1 = setToCache (cacheSize s) (cache s) i r"
        using g \<open>map_of (cache s) i = None\<close> by (auto simp: json_get_eq split: option.splits)
      then show ?thesis
        using dk Some setToCache_entries[OF dk, where n = "cacheSize s" and k = i and v = r]
        by (fastforce simp: setToCache_distinct)
    qed
  next
    case (Some r)
    then have "cache s1 = map_delete i (cache s) @ [(i, r)]" "res = Some r"
      using g by (auto simp: json_get_eq)
    then show ?thesis
      using promote_distinct[OF dk, where k = i and v = r] by (auto simp: map_delete_entries)
  qed
  show "json_inv s1"
    unfolding json_inv_def same
  proof (intro conjI ballI)
    show "distinct (map fst (cache s1))" using c1 by simp
    show "distinct (map (\<lambda>r. id_of (heap s r)) (data s))"
      using inv by (simp add: json_inv_def)
    show "r < nxt s" if "r \<in> set (data s)" for r
      using inv that by (simp add: json_inv_def)
    show "is_primitive (id_of (heap s r))" if "r \<in> set (data s)" for r
      using inv that by (simp add: json_inv_def)
    fix p assume p: "p \<in> set (cache s1)"
    then consider "p \<in> set (cache s)" | "res = Some (snd p)" "fst p = i" using c1 by blast
    then have "snd p \<in> set (data s) \<and> id_of (heap s (snd p)) = fst p \<and> \<not> is_deleted (heap s (snd p))"
    proof cases
      case 1
      then show ?thesis by (rule ce)
    next
      case 2
      then show ?thesis using found[of "snd p"] by simp
    qed
    then show "snd p \<in> set (data s)" "id_of (heap s (snd p)) = fst p" "\<not> is_deleted (heap s (snd p))"
      by simp_all
  qed
qed

lemma json_inv_parts:
  assumes "json_inv s"
  shows "distinct (map fst (cache s))"
    and "\<And>p. p \<in> set (cache s) \<Longrightarrow>
          snd p \<in> set (data s) \<and> id_of (heap s (snd p)) = fst p \<and> \<not> is_deleted (heap s (snd p))"
    and "distinct (map (\<lambda>r. id_of (heap s r)) (data s))"
    and "\<And>r. r \<in> set (data s) \<Longrightarrow> r < nxt s"
    and "\<And>r. r \<in> set (data s) \<Longrightarrow> is_primitive (id_of (heap s r))"
  using assms by (auto simp: json_inv_def)

lemma json_invI:
  assumes "distinct (map fst (cache s))"
    and "\<And>p. p \<in> set (cache s) \<Longrightarrow>
          snd p \<in> set (data s) \<and> id_of (heap s (snd p)) = fst p \<and> \<not> is_deleted (heap s (snd p))"
    and "distinct (map (\<lambda>r. id_of (heap s r)) (data s))"
    and "\<And>r. r \<in> set (data s) \<Longrightarrow> r < nxt s \<and> is_primitive (id_of (heap s r))"
  shows "json_inv s"
  using assms by (auto simp: json_inv_def)

lemma json_inv_insert:
  assumes inv: "json_inv s" and ok: "json_ok s (Insert d uid now)"
  shows "json_inv (snd (json_insert s d uid now))"
proof -
  define s' where "s' = snd (json_insert s d uid now)"
  let ?d = "stamp_insert d uid now"
  note p = json_inv_parts[OF inv]
  have h: "heap s' = (heap s)(nxt s := ?d)" and dt: "data s' = data s @ [nxt s]"
    and c: "cache s' = setToCache (cacheSize s) (cache s) (id_of ?d) (nxt s)"
    and n: "nxt s' = Suc (nxt s)"
    by (simp_all add: s'_def json_insert_eq)
  have old: "heap s' r = heap s r" if "r \<in> set (data s)" for r
    using p(4)[OF that] by (simp add: h)
  have new: "heap s' (nxt s) = ?d" by (simp add: h)
  have live: "\<not> is_deleted ?d" and prim: "is_primitive (id_of ?d)"
    and nid: "id_of ?d \<notin> (\<lambda>r. id_of (heap s r)) ` set (data s)"
    using ok by (auto simp: is_deleted_stamp)
  have "json_inv s'"
  proof (rule json_invI)
    show "distinct (map fst (cache s'))" by (simp add: c setToCache_distinct p(1))
    show "distinct (map (\<lambda>r. id_of (heap s' r)) (data s'))"
    proof -
      have eq: "map (\<lambda>r. id_of (heap s' r)) (data s) = map (\<lambda>r. id_of (heap s r)) (data s)"
        by (rule map_cong) (simp_all add: old)
      have "distinct (map (\<lambda>r. id_of (heap s r)) (data s) @ [id_of ?d])"
        using p(3) nid by simp
      then show ?thesis unfolding dt map_append eq by (simp add: new)
    qed
    show "r < nxt s' \<and> is_primitive (id_of (heap s' r))" if "r \<in> set (data s')" for r
    proof (cases "r = nxt s")
      case True
      then show ?thesis by (simp add: n new prim)
    next
      case False
      then have "r \<in> set (data s)" using that by (simp add: dt)
      then show ?thesis using p(4) p(5) by (simp add: n old less_Suc_eq)
    qed
    fix q assume q: "q \<in> set (cache s')"
    then consider "q = (id_of ?d, nxt s)" | "q \<in> set (cache s)"
      using setToCache_entries[OF p(1)] unfolding c by blast
    then show "snd q \<in> set (data s') \<and> id_of (heap s' (snd q)) = fst q \<and> \<not> is_deleted (heap s' (snd q))"
    proof cases
      case 1
      then show ?thesis by (simp add: dt new live)
    next
      case 2
      then show ?thesis using p(2)[OF 2] by (simp add: dt old)
    qed
  qed
  then show ?thesis by (simp add: s'_def)
qed

lemma update_nth_set: "n < length xs \<Longrightarrow> set (xs[n := y]) \<subseteq> insert y (set xs - {xs ! n}) \<union> set xs"
  using set_update_subset_insert by fastforce

lemma distinct_update_elems:
  assumes "distinct (map f xs)" "n < length xs" "x \<in> set (xs[n := y])" "x \<noteq> y"
  shows "x \<in> set xs \<and> f x \<noteq> f (xs ! n)"
proof -
  from assms(3) obtain m where m: "m < length xs" "(xs[n := y]) ! m = x"
    by (auto simp: in_set_conv_nth)
  then have mn: "m \<noteq> n" using assms(2,4) by auto
  then have x: "x = xs ! m" using m by simp
  have "f (xs ! m) \<noteq> f (xs ! n)"
    using assms(1,2) m(1) mn by (simp add: distinct_conv_nth)
  then show ?thesis using x m(1) by simp
qed

lemma in_set_update_other: "x \<in> set xs \<Longrightarrow> x \<noteq> xs ! n \<Longrightarrow> x \<in> set (xs[n := y])"
  by (metis in_set_conv_nth length_list_update nth_list_update_neq)

lemma json_update_found:
  assumes inv: "json_inv s" and e: "e \<in> set (data s)" and i: "id_of (heap s e) = i"
    and h': "\<And>r. r \<in> set (data s) \<Longrightarrow> id_of (h' r) = id_of (heap s r)"
  obtains n where "findIndex (\<lambda>x. strict_eq (id_of (h' x)) i) (data s) = Some n"
    "n < length (data s)" "data s ! n = e"
proof -
  note p = json_inv_parts[OF inv]
  have pe: "strict_eq (id_of (h' e)) i"
    using p(5)[OF e] i h'[OF e] by (simp add: strict_eq_primitive)
  have uniq: "\<forall>x\<in>set (data s). strict_eq (id_of (h' x)) i \<longrightarrow> x = e"
  proof (intro ballI impI)
    fix x assume x: "x \<in> set (data s)" and "strict_eq (id_of (h' x)) i"
    then have "id_of (heap s x) = id_of (heap s e)"
      using h'[OF x] i by (auto dest: strict_eq_imp_eq)
    then show "x = e" using p(3) x e by (auto simp: distinct_map dest: inj_onD)
  qed
  show ?thesis
    by (rule findIndex_unique[OF e pe uniq]) (rule that)
qed


lemma json_inv_update:
  assumes inv0: "json_inv s0" and ok: "json_ok s0 (Update i d now)"
  shows "json_inv (snd (json_update s0 i d now))"
proof -
  obtain res s where g: "json_get s0 i = (res, s)" by fastforce
  note gi = json_get_inv[OF inv0 g] and same = json_get_same[OF g]
  show ?thesis
  proof (cases res)
    case None
    then show ?thesis using g gi(1) by (simp add: json_update_eq)
  next
    case (Some e)
    note inv = gi(1)
    note p = json_inv_parts[OF inv]
    have e: "e \<in> set (data s)" "id_of (heap s e) = i" "\<not> is_deleted (heap s e)"
      using gi(2)[of e] Some same by simp_all
    define u where "u = updatedData (heap s e) d now"
    define s' where "s' = snd (json_update s0 i d now)"
    have idu: "id_of u = i"
      unfolding u_def using e(2) ok by (intro id_of_updatedData_kept) simp_all
    have liveu: "\<not> is_deleted u"
      unfolding u_def using e(3) ok by (intro live_updatedData) simp_all
    have h: "heap s' = (heap s)(nxt s := u)" and n: "nxt s' = Suc (nxt s)"
      and c: "cache s' = setToCache (cacheSize s) (cache s) i (nxt s)"
      and dt0: "data s' = (case findIndex (\<lambda>x. strict_eq (id_of (((heap s)(nxt s := u)) x)) i) (data s) of
                        None \<Rightarrow> data s | Some k \<Rightarrow> (data s)[k := nxt s])"
      using g Some by (simp_all add: s'_def u_def json_update_eq)
    have old: "heap s' r = heap s r" if "r \<in> set (data s)" for r
      using p(4)[OF that] by (simp add: h)
    have new: "heap s' (nxt s) = u" by (simp add: h)
    obtain k where k: "findIndex (\<lambda>x. strict_eq (id_of (((heap s)(nxt s := u)) x)) i) (data s) = Some k"
      "k < length (data s)" "data s ! k = e"
    proof (rule json_update_found[OF inv e(1) e(2), of "(heap s)(nxt s := u)"])
      show "id_of (((heap s)(nxt s := u)) r) = id_of (heap s r)" if "r \<in> set (data s)" for r
        using p(4)[OF that] by simp
    qed
    have dt: "data s' = (data s)[k := nxt s]" using dt0 k(1) by simp
    have "json_inv s'"
    proof (rule json_invI)
      show "distinct (map fst (cache s'))" by (simp add: c setToCache_distinct p(1))
      show "distinct (map (\<lambda>r. id_of (heap s' r)) (data s'))"
      proof -
        have eq: "map (\<lambda>r. id_of (heap s' r)) (data s) = map (\<lambda>r. id_of (heap s r)) (data s)"
          by (rule map_cong) (simp_all add: old)
        have "map (\<lambda>r. id_of (heap s' r)) (data s')
                = (map (\<lambda>r. id_of (heap s r)) (data s))[k := i]"
          unfolding dt map_update eq by (simp add: new idu)
        also have "\<dots> = map (\<lambda>r. id_of (heap s r)) (data s)"
          using k(2,3) e(2) by (metis list_update_id nth_map)
        finally show ?thesis using p(3) by simp
      qed
      show "r < nxt s' \<and> is_primitive (id_of (heap s' r))" if "r \<in> set (data s')" for r
      proof (cases "r = nxt s")
        case True
        then show ?thesis using p(5)[OF e(1)] e(2) by (simp add: n new idu)
      next
        case False
        then have "r \<in> set (data s)"
          using that set_update_subset_insert[of "data s" k "nxt s"] unfolding dt by auto
        then show ?thesis using p(4) p(5) by (simp add: n old less_Suc_eq)
      qed
      fix q assume q: "q \<in> set (cache s')"
      then consider "q = (i, nxt s)" | "q \<in> set (cache s)" "fst q \<noteq> i"
        using setToCache_entries[OF p(1)] unfolding c by blast
      then show "snd q \<in> set (data s') \<and> id_of (heap s' (snd q)) = fst q \<and> \<not> is_deleted (heap s' (snd q))"
      proof cases
        case 1
        then show ?thesis using k(2) by (simp add: dt new idu liveu set_update_memI)
      next
        case 2
        note pq = p(2)[OF 2(1)]
        have "snd q \<noteq> data s ! k" using pq 2(2) e(2) k(3) by auto
        then have "snd q \<in> set (data s')" using pq unfolding dt by (simp add: in_set_update_other)
        then show ?thesis using pq by (simp add: old)
      qed
    qed
    then show ?thesis by (simp add: s'_def)
  qed
qed

lemma json_inv_delete:
  assumes inv0: "json_inv s0"
  shows "json_inv (snd (json_delete s0 i now))"
proof -
  obtain res s where g: "json_get s0 i = (res, s)" by fastforce
  note gi = json_get_inv[OF inv0 g] and same = json_get_same[OF g]
  show ?thesis
  proof (cases res)
    case None
    then show ?thesis using g gi(1) by (simp add: json_delete_eq)
  next
    case (Some e)
    note inv = gi(1)
    note p = json_inv_parts[OF inv]
    have e: "e \<in> set (data s)" "id_of (heap s e) = i"
      using gi(2)[of e] Some same by simp_all
    define m where "m = mark_deleted (heap s e) now"
    define s' where "s' = snd (json_delete s0 i now)"
    have h: "heap s' = (heap s)(e := m)" and n: "nxt s' = nxt s"
      and c: "cache s' = map_delete i (cache s)"
      and dt0: "data s' = (case findIndex (\<lambda>x. strict_eq (id_of (((heap s)(e := m)) x)) i) (data s) of
                        None \<Rightarrow> data s | Some k \<Rightarrow> (data s)[k := e])"
      using g Some by (simp_all add: s'_def m_def json_delete_eq)
    have ids: "id_of (heap s' r) = id_of (heap s r)" for r
      by (simp add: h m_def id_of_mark)
    obtain k where k: "findIndex (\<lambda>x. strict_eq (id_of (((heap s)(e := m)) x)) i) (data s) = Some k"
      "k < length (data s)" "data s ! k = e"
    proof (rule json_update_found[OF inv e(1) e(2), of "(heap s)(e := m)"])
      show "id_of (((heap s)(e := m)) r) = id_of (heap s r)" for r
        by (simp add: m_def id_of_mark)
    qed
    have dt: "data s' = data s" using dt0 k by (simp add: list_update_id[of "data s" k, unfolded k(3)])
    have "json_inv s'"
    proof (rule json_invI)
      show "distinct (map fst (cache s'))" by (simp add: c map_delete_distinct p(1))
      show "distinct (map (\<lambda>r. id_of (heap s' r)) (data s'))"
        using p(3) by (simp add: dt ids)
      show "r < nxt s' \<and> is_primitive (id_of (heap s' r))" if "r \<in> set (data s')" for r
        using that p(4) p(5) by (simp add: dt n ids)
      fix q assume q: "q \<in> set (cache s')"
      then have q': "q \<in> set (cache s)" "fst q \<noteq> i" by (simp_all add: c map_delete_entries)
      note pq = p(2)[OF q'(1)]
      have "snd q \<noteq> e" using pq q'(2) e(2) by auto
      then show "snd q \<in> set (data s') \<and> id_of (heap s' (snd q)) = fst q \<and> \<not> is_deleted (heap s' (snd q))"
        using pq by (simp add: dt h)
    qed
    then show ?thesis by (simp add: s'_def)
  qed
qed

lemma map_of_without: "k \<notin> set ks \<Longrightarrow> map_of (without ks ob) k = map_of ob k"
  unfolding without_def by (induction ob) auto

lemma obj_get_without: "k \<notin> set ks \<Longrightarrow> obj_get (without ks ob) k = obj_get ob k"
  by (simp add: obj_get_def map_of_without)

lemma id_of_without: "''id'' \<notin> set ks \<Longrightarrow> id_of (without ks ob) = id_of ob"
  by (simp add: id_of_def obj_get_without)

lemma json_inv_loaded:
  assumes d: "distinct (map id_of obs)" and pr: "\<And>ob. ob \<in> set obs \<Longrightarrow> is_primitive (id_of ob)"
    and s': "data s' = [n..<n + length obs]" "map (heap s') [n..<n + length obs] = obs"
      "nxt s' = n + length obs" "cache s' = []"
  shows "json_inv s'"
proof (rule json_invI)
  show "distinct (map fst (cache s'))" by (simp add: s'(4))
  show "\<And>p. p \<in> set (cache s') \<Longrightarrow>
          snd p \<in> set (data s') \<and> id_of (heap s' (snd p)) = fst p \<and> \<not> is_deleted (heap s' (snd p))"
    by (simp add: s'(4))
  have "map id_of obs = map id_of (map (heap s') [n..<n + length obs])"
    by (simp only: s'(2))
  also have "\<dots> = map (\<lambda>r. id_of (heap s' r)) [n..<n + length obs]"
    by (simp add: comp_def)
  finally have m: "map (\<lambda>r. id_of (heap s' r)) (data s') = map id_of obs"
    by (simp only: s'(1))
  show "distinct (map (\<lambda>r. id_of (heap s' r)) (data s'))" using d by (simp add: m)
  show "r < nxt s' \<and> is_primitive (id_of (heap s' r))" if "r \<in> set (data s')" for r
  proof -
    have "id_of (heap s' r) \<in> set (map (\<lambda>r. id_of (heap s' r)) (data s'))" using that by simp
    then have "id_of (heap s' r) \<in> id_of ` set obs" unfolding m by simp
    then obtain ob where "ob \<in> set obs" "id_of (heap s' r) = id_of ob" by auto
    then have "is_primitive (id_of (heap s' r))" using pr by simp
    moreover have "r < nxt s'" using that by (simp add: s'(1,3))
    ultimately show ?thesis by simp
  qed
qed

lemma json_inv_compact:
  assumes inv: "json_inv s"
  shows "json_inv (snd (json_compact s))"
proof -
  note p = json_inv_parts[OF inv]
  define obs where "obs = map (without [''_created'', ''_updated''])
              (filter (\<lambda>ob. \<not> is_deleted ob) (map (heap s) (data s)))"
  define s' where "s' = snd (json_compact s)"
  have ids: "map id_of obs = map (\<lambda>r. id_of (heap s r)) (filter (\<lambda>r. \<not> is_deleted (heap s r)) (data s))"
    by (simp add: obs_def filter_map comp_def id_of_without)
  show ?thesis unfolding s'_def[symmetric]
  proof (rule json_inv_loaded[where obs = obs and n = "nxt s"])
    show "distinct (map id_of obs)" unfolding ids using p(3) by (rule distinct_map_filter)
    show "is_primitive (id_of ob)" if "ob \<in> set obs" for ob
    proof -
      have "id_of ob \<in> set (map id_of obs)" using that by simp
      then show ?thesis unfolding ids using p(5) by auto
    qed
    show "data s' = [nxt s..<nxt s + length obs]"
      by (simp add: s'_def json_compact_def Let_def obs_def[symmetric] load_data)
    show "map (heap s') [nxt s..<nxt s + length obs] = obs"
      using load_values[of obs "s\<lparr>dataFile := Some (map json_rt_props obs), walFile := None, data := []\<rparr>"]
      by (simp add: s'_def json_compact_def Let_def obs_def[symmetric])
    show "nxt s' = nxt s + length obs"
      by (simp add: s'_def json_compact_def Let_def obs_def[symmetric] load_nxt)
    show "cache s' = []"
      by (simp add: s'_def json_compact_def Let_def clearCache_def)
  qed
qed

lemma json_inv_restore:
  assumes inv: "json_inv s" and ok: "json_ok s (Restore bfile uids clock)"
  shows "json_inv (snd (json_restore s bfile))"
proof (cases bfile)
  case None
  then show ?thesis using inv by (simp add: json_restore_def)
next
  case (Some recs)
  define s' where "s' = snd (json_restore s bfile)"
  show ?thesis unfolding s'_def[symmetric]
  proof (rule json_inv_loaded[where obs = recs and n = "nxt s"])
    show "distinct (map id_of recs)" using ok Some by simp
    show "is_primitive (id_of ob)" if "ob \<in> set recs" for ob
      using ok Some that by (simp add: list_all_iff)
    show "data s' = [nxt s..<nxt s + length recs]"
      by (simp add: s'_def Some json_restore_def Let_def saveData_def load_data)
    show "map (heap s') [nxt s..<nxt s + length recs] = recs"
      using load_values[of recs "s\<lparr>data := [], cache := clearCache (cache s)\<rparr>"]
      by (simp add: s'_def Some json_restore_def Let_def saveData_def)
    show "nxt s' = nxt s + length recs"
      by (simp add: s'_def Some json_restore_def Let_def saveData_def load_nxt)
    show "cache s' = []"
      by (simp add: s'_def Some json_restore_def Let_def saveData_def load_same clearCache_def)
  qed
qed

lemma json_inv_createIndex: "json_inv s \<Longrightarrow> json_inv (json_createIndex s f)"
  by (simp add: json_inv_def json_createIndex_def)

lemma json_inv_step: "json_inv s \<Longrightarrow> json_ok s c \<Longrightarrow> json_inv (json_step s c)"
proof (cases c)
  case (Get i)
  assume "json_inv s"
  then show ?thesis using json_get_inv(1)[of s i "fst (json_get s i)" "snd (json_get s i)"] Get
    by simp
qed (simp_all add: json_inv_insert json_inv_update json_inv_delete json_inv_compact
       json_inv_restore json_inv_createIndex)

lemma json_inv_run: "json_inv s \<Longrightarrow> json_ok_run s cs \<Longrightarrow> json_inv (json_run s cs)"
  by (induction cs arbitrary: s) (simp_all add: json_inv_step)

lemma json_inv_new: "json_inv (json_new n dfile wfile)"
  by (simp add: json_inv_def json_new_def)

lemma json_inv_coherent: "json_inv s \<Longrightarrow> json_coherent s"
  unfolding json_coherent_def list_all_iff
proof
  fix p assume inv: "json_inv s" and pc: "p \<in> set (cache s)"
  note q = json_inv_parts[OF inv]
  note pq = q(2)[OF pc]
  show "List.find (\<lambda>r. strict_eq (id_of (heap s r)) (fst p) \<and> \<not> is_deleted (heap s r)) (data s) = Some (snd p)"
  proof (rule find_Some_unique)
    show "snd p \<in> set (data s)" using pq by simp
    show "strict_eq (id_of (heap s (snd p))) (fst p) \<and> \<not> is_deleted (heap s (snd p))"
      using pq q(5)[of "snd p"] by (simp add: strict_eq_primitive)
    show "\<forall>x\<in>set (data s). strict_eq (id_of (heap s x)) (fst p) \<and> \<not> is_deleted (heap s x) \<longrightarrow> x = snd p"
    proof (intro ballI impI)
      fix x assume x: "x \<in> set (data s)"
        and "strict_eq (id_of (heap s x)) (fst p) \<and> \<not> is_deleted (heap s x)"
      then have "id_of (heap s x) = id_of (heap s (snd p))" using pq by (auto dest: strict_eq_imp_eq)
      moreover have "inj_on (\<lambda>r. id_of (heap s r)) (set (data s))"
        using q(3) by (simp add: distinct_map)
      ultimately show "x = snd p" using x pq by (meson inj_onD)
    qed
  qed
qed

section \<open>Index maintenance against \<open>rebuildIndex\<close>\<close>

lemma rebuildIndex_snoc: "rebuildIndex f (recs @ [p]) = rebuild_step f (rebuildIndex f recs) p"
  by (simp add: rebuildIndex_def)

lemma ids_holding_snoc:
  "ids_holding f (recs @ [p]) v =
     ids_holding f recs v \<union> (if \<not> is_deleted (snd p) \<and> obj_get (snd p) f = v then {fst p} else {})"
  by (simp add: ids_holding_def)

lemma in_ids_holding:
  "x \<in> ids_holding f recs v \<longleftrightarrow>
     (\<exists>p. p \<in> set recs \<and> x = fst p \<and> \<not> is_deleted (snd p) \<and> obj_get (snd p) f = v)"
  unfolding ids_holding_def by (simp add: image_iff)

lemma rebuildIndex_char:
  "rebuildIndex f recs v =
     (if v = JUndef \<or> ids_holding f recs v = {} then None else Some (ids_holding f recs v))"
proof (induction recs arbitrary: v rule: rev_induct)
  case Nil
  then show ?case by (simp add: rebuildIndex_def ids_holding_def)
next
  case (snoc p recs)
  show ?case
    unfolding rebuildIndex_snoc ids_holding_snoc rebuild_step_def index_add_def
    by (simp add: snoc.IH)
qed

lemma index_remove_char:
  assumes "\<And>v. ix v = (if v = JUndef \<or> S v = {} then None else Some (S v))"
  shows "index_remove ix a i v =
           (if v = JUndef \<or> (if v = a then S v - {i} else S v) = {} then None
            else Some (if v = a then S v - {i} else S v))"
  unfolding index_remove_def by (simp add: assms)

lemma index_add_char:
  assumes "\<And>v. ix v = (if v = JUndef \<or> S v = {} then None else Some (S v))" and "b \<noteq> JUndef"
  shows "index_add ix b i v =
           (if v = JUndef \<or> (if v = b then insert i (S v) else S v) = {} then None
            else Some (if v = b then insert i (S v) else S v))"
  unfolding index_add_def using assms(2) by (simp add: assms(1))

lemma ids_holding_update:
  assumes d: "distinct (map fst recs)" and k: "k < length recs" and i: "fst (recs ! k) = i"
  shows "ids_holding f (recs[k := (i, ob)]) v =
           (ids_holding f recs v - {i})
             \<union> (if \<not> is_deleted ob \<and> obj_get ob f = v then {i} else {})"
proof -
  have dr: "distinct recs" using d by (simp add: distinct_map)
  have st: "set (recs[k := (i, ob)]) = insert (i, ob) (set recs - {recs ! k})"
    using dr k by (rule set_update_distinct)
  have others: "fst p \<noteq> i" if "p \<in> set recs" "p \<noteq> recs ! k" for p
  proof -
    from that(1) obtain m where m: "m < length recs" "recs ! m = p" by (auto simp: in_set_conv_nth)
    then have "m \<noteq> k" using that(2) by auto
    then have "map fst recs ! m \<noteq> map fst recs ! k"
      using nth_eq_iff_index_eq[OF d, of m k] m(1) k by simp
    then show ?thesis using m k i by simp
  qed
  show ?thesis
  proof (intro set_eqI iffI)
    fix x assume "x \<in> ids_holding f (recs[k := (i, ob)]) v"
    then obtain p where p: "p \<in> insert (i, ob) (set recs - {recs ! k})" "x = fst p"
        "\<not> is_deleted (snd p)" "obj_get (snd p) f = v"
      unfolding in_ids_holding st by blast
    show "x \<in> (ids_holding f recs v - {i})
             \<union> (if \<not> is_deleted ob \<and> obj_get ob f = v then {i} else {})"
    proof (cases "p = (i, ob)")
      case True
      then show ?thesis using p by simp
    next
      case False
      then have pr: "p \<in> set recs" "p \<noteq> recs ! k" using p(1) by auto
      then have "fst p \<noteq> i" by (rule others)
      moreover have "fst p \<in> ids_holding f recs v"
        using pr(1) p(3,4) unfolding in_ids_holding by blast
      ultimately show ?thesis using p(2) by simp
    qed
  next
    fix x assume "x \<in> (ids_holding f recs v - {i})
             \<union> (if \<not> is_deleted ob \<and> obj_get ob f = v then {i} else {})"
    then consider (old) "x \<in> ids_holding f recs v" "x \<noteq> i"
      | (new) "x = i" "\<not> is_deleted ob" "obj_get ob f = v"
      by (cases "\<not> is_deleted ob \<and> obj_get ob f = v") auto
    then show "x \<in> ids_holding f (recs[k := (i, ob)]) v"
    proof cases
      case old
      then obtain p where p: "p \<in> set recs" "x = fst p" "\<not> is_deleted (snd p)"
          "obj_get (snd p) f = v"
        unfolding in_ids_holding by blast
      then have "p \<noteq> recs ! k" using i old(2) by auto
      then have "p \<in> set (recs[k := (i, ob)])" unfolding st using p(1) by simp
      then show ?thesis unfolding in_ids_holding using p(2,3,4) by blast
    next
      case new
      have "(i, ob) \<in> set (recs[k := (i, ob)])" unfolding st by simp
      then show ?thesis unfolding in_ids_holding using new by force
    qed
  qed
qed

lemma ids_holding_at:
  assumes d: "distinct (map fst recs)" and k: "k < length recs" and r: "recs ! k = (i, ob)"
    and live: "\<not> is_deleted ob"
  shows "i \<in> ids_holding f recs v \<longleftrightarrow> obj_get ob f = v"
proof
  assume "i \<in> ids_holding f recs v"
  then obtain p where p: "p \<in> set recs" "fst p = i" "obj_get (snd p) f = v"
    unfolding in_ids_holding by metis
  from p(1) obtain m where m: "m < length recs" "recs ! m = p" by (auto simp: in_set_conv_nth)
  have "map fst recs ! m = map fst recs ! k" using m k r p(2) by simp
  then have "m = k" using nth_eq_iff_index_eq[OF d, of m k] m(1) k by simp
  then have "p = (i, ob)" using m(2) r by simp
  then show "obj_get ob f = v" using p(3) by simp
next
  assume "obj_get ob f = v"
  moreover have "(i, ob) \<in> set recs" using k r by (metis nth_mem)
  ultimately show "i \<in> ids_holding f recs v" using live unfolding in_ids_holding by force
qed

lemma consistent_iff:
  "json_indexes_consistent s \<longleftrightarrow>
     (\<forall>p\<in>set (indexes s). \<forall>v. snd p v =
        (if v = JUndef \<or> ids_holding (fst p) (json_recs s) v = {} then None
         else Some (ids_holding (fst p) (json_recs s) v)))"
  by (simp add: json_indexes_consistent_def list_all_iff fun_eq_iff rebuildIndex_char)

lemma not_differs_eq:
  assumes "\<not> field_differs e d (updatedData e d now) f"
  shows "obj_get (updatedData e d now) f = obj_get e f"
proof (cases "f \<in> fst ` set d \<or> f = ''_updated''")
  case True
  then have "strict_eq (obj_get e f) (obj_get (updatedData e d now) f)"
    using assms by (simp add: field_differs_def)
  then show ?thesis by (auto dest: strict_eq_imp_eq)
next
  case False
  then show ?thesis by (simp add: obj_get_updatedData)
qed

lemma index_update_char:
  assumes ix: "\<And>v. ix v = (if v = JUndef \<or> S v = {} then None else Some (S v))"
    and at: "\<And>v. i \<in> S v \<longleftrightarrow> obj_get e f = v"
    and nd: "\<not> field_differs e d u f \<Longrightarrow> obj_get u f = obj_get e f"
  shows "snd (index_update e d u i (f, ix)) v =
           (if v = JUndef \<or> (S v - {i}) \<union> (if obj_get u f = v then {i} else {}) = {} then None
            else Some ((S v - {i}) \<union> (if obj_get u f = v then {i} else {})))"
proof (cases "field_differs e d u f")
  case False
  then have eq: "obj_get u f = obj_get e f" by (rule nd)
  have "(S v - {i}) \<union> (if obj_get u f = v then {i} else {}) = S v"
    using at[of v] unfolding eq by auto
  then show ?thesis using False by (simp add: index_update_def ix)
next
  case True
  note rm = index_remove_char[where ix = ix and S = S and a = "obj_get e f" and i = i, OF ix]
  have s1: "(if v = obj_get e f then S v - {i} else S v) = S v - {i}" for v
    using at[of v] by auto
  show ?thesis
  proof (cases "obj_get u f = JUndef")
    case u: True
    show ?thesis
    proof (cases "v = JUndef")
      case True
      then show ?thesis using \<open>field_differs e d u f\<close> u by (simp add: index_update_def rm)
    next
      case False
      then show ?thesis using \<open>field_differs e d u f\<close> u
        by (simp add: index_update_def rm s1)
    qed
  next
    case u: False
    have ad: "index_add (index_remove ix (obj_get e f) i) (obj_get u f) i v =
           (if v = JUndef \<or> (if v = obj_get u f then insert i (S v - {i}) else S v - {i}) = {} then None
            else Some (if v = obj_get u f then insert i (S v - {i}) else S v - {i}))"
      using index_add_char[where ix = "index_remove ix (obj_get e f) i"
              and S = "\<lambda>v. S v - {i}" and b = "obj_get u f" and i = i and v = v] rm u
      by (simp add: s1)
    have "(S v - {i}) \<union> (if obj_get u f = v then {i} else {})
            = (if v = obj_get u f then insert i (S v - {i}) else S v - {i})"
      by auto
    then show ?thesis using \<open>field_differs e d u f\<close> u
      by (simp add: index_update_def ad)
  qed
qed

lemma index_delete_char:
  assumes ix: "\<And>v. ix v = (if v = JUndef \<or> S v = {} then None else Some (S v))"
    and at: "\<And>v. i \<in> S v \<longleftrightarrow> obj_get m f = v"
  shows "snd (index_delete m i (f, ix)) v =
           (if v = JUndef \<or> S v - {i} = {} then None else Some (S v - {i}))"
proof -
  have s1: "(if v = obj_get m f then S v - {i} else S v) = S v - {i}" for v
    using at[of v] by auto
  show ?thesis
    using index_remove_char[where ix = ix and S = S and a = "obj_get m f" and i = i and v = v, OF ix]
    by (simp add: index_delete_def s1)
qed

lemma index_insert_step:
  "\<not> is_deleted d \<Longrightarrow>
   index_insert d (f, rebuildIndex f recs) = (f, rebuildIndex f (recs @ [(id_of d, d)]))"
  by (simp add: index_insert_def rebuildIndex_snoc rebuild_step_def)

lemma json_update_success:
  assumes inv0: "json_inv s0" and g: "json_get s0 i = (Some e, s)"
  obtains k where "k < length (data s0)" "data s0 ! k = e"
    "id_of (heap s0 e) = i" "\<not> is_deleted (heap s0 e)"
    "heap (snd (json_update s0 i d now)) = (heap s0)(nxt s0 := updatedData (heap s0 e) d now)"
    "data (snd (json_update s0 i d now)) = (data s0)[k := nxt s0]"
    "indexes (snd (json_update s0 i d now))
       = map (index_update (heap s0 e) d (updatedData (heap s0 e) d now) i) (indexes s0)"
proof -
  note gi = json_get_inv[OF inv0 g] and same = json_get_same[OF g]
  note p = json_inv_parts[OF inv0]
  have e: "e \<in> set (data s0)" "id_of (heap s0 e) = i" "\<not> is_deleted (heap s0 e)"
    using gi(2)[of e] by simp_all
  let ?u = "updatedData (heap s0 e) d now"
  obtain k where k: "findIndex (\<lambda>x. strict_eq (id_of (((heap s0)(nxt s0 := ?u)) x)) i) (data s0) = Some k"
      "k < length (data s0)" "data s0 ! k = e"
  proof (rule json_update_found[OF inv0 e(1) e(2), of "(heap s0)(nxt s0 := ?u)"])
    show "id_of (((heap s0)(nxt s0 := ?u)) r) = id_of (heap s0 r)" if "r \<in> set (data s0)" for r
      using p(4)[OF that] by simp
  qed
  show ?thesis
  proof (rule that[of k])
    show "k < length (data s0)" "data s0 ! k = e" by (rule k)+
    show "id_of (heap s0 e) = i" "\<not> is_deleted (heap s0 e)" by (rule e)+
    show "heap (snd (json_update s0 i d now)) = (heap s0)(nxt s0 := ?u)"
      using g same by (simp add: json_update_eq)
    have "data (snd (json_update s0 i d now)) =
        (case findIndex (\<lambda>x. strict_eq (id_of (((heap s)(nxt s := updatedData (heap s e) d now)) x)) i) (data s) of
           None \<Rightarrow> data s | Some n \<Rightarrow> (data s)[n := nxt s])"
      using g by (simp add: json_update_eq)
    note dt0 = this[unfolded same]
    show "data (snd (json_update s0 i d now)) = (data s0)[k := nxt s0]"
      unfolding dt0 k(1) by simp
    show "indexes (snd (json_update s0 i d now)) = map (index_update (heap s0 e) d ?u i) (indexes s0)"
      using g same by (simp add: json_update_eq)
  qed
qed

lemma json_delete_success:
  assumes inv0: "json_inv s0" and g: "json_get s0 i = (Some e, s)"
  obtains k where "k < length (data s0)" "data s0 ! k = e"
    "id_of (heap s0 e) = i" "\<not> is_deleted (heap s0 e)"
    "heap (snd (json_delete s0 i now)) = (heap s0)(e := mark_deleted (heap s0 e) now)"
    "data (snd (json_delete s0 i now)) = data s0"
    "indexes (snd (json_delete s0 i now))
       = map (index_delete (mark_deleted (heap s0 e) now) i) (indexes s0)"
proof -
  note gi = json_get_inv[OF inv0 g] and same = json_get_same[OF g]
  note p = json_inv_parts[OF inv0]
  have e: "e \<in> set (data s0)" "id_of (heap s0 e) = i" "\<not> is_deleted (heap s0 e)"
    using gi(2)[of e] by simp_all
  let ?m = "mark_deleted (heap s0 e) now"
  obtain k where k: "findIndex (\<lambda>x. strict_eq (id_of (((heap s0)(e := ?m)) x)) i) (data s0) = Some k"
      "k < length (data s0)" "data s0 ! k = e"
  proof (rule json_update_found[OF inv0 e(1) e(2), of "(heap s0)(e := ?m)"])
    show "id_of (((heap s0)(e := ?m)) r) = id_of (heap s0 r)" for r
      by (simp add: id_of_mark)
  qed
  have lu: "(data s0)[k := e] = data s0" using k(3) by (metis list_update_id)
  show ?thesis
  proof (rule that[of k])
    show "k < length (data s0)" "data s0 ! k = e" by (rule k)+
    show "id_of (heap s0 e) = i" "\<not> is_deleted (heap s0 e)" by (rule e)+
    show "heap (snd (json_delete s0 i now)) = (heap s0)(e := ?m)"
      using g same by (simp add: json_delete_eq)
    have "data (snd (json_delete s0 i now)) =
        (case findIndex (\<lambda>x. strict_eq (id_of (((heap s)(e := mark_deleted (heap s e) now)) x)) i) (data s) of
           None \<Rightarrow> data s | Some n \<Rightarrow> (data s)[n := e])"
      using g by (simp add: json_delete_eq)
    note dt0 = this[unfolded same]
    show "data (snd (json_delete s0 i now)) = data s0"
      unfolding dt0 k(1) using lu by simp
    show "indexes (snd (json_delete s0 i now)) = map (index_delete ?m i) (indexes s0)"
      using g same by (simp add: json_delete_eq)
  qed
qed

lemma fst_index_insert: "fst (index_insert d p) = fst p"
  by (simp add: index_insert_def)

lemma fst_index_update: "fst (index_update e d u i p) = fst p"
  by (simp add: index_update_def)

lemma fst_index_delete: "fst (index_delete m i p) = fst p"
  by (simp add: index_delete_def)

lemma json_recs_keys: "map fst (json_recs s) = map (\<lambda>r. id_of (heap s r)) (data s)"
  by (simp add: json_recs_def comp_def)

lemma consistent_insert:
  assumes inv: "json_inv s" and ok: "json_ok s (Insert d uid now)"
    and con: "json_indexes_consistent s"
  shows "json_indexes_consistent (snd (json_insert s d uid now))"
proof -
  let ?d = "stamp_insert d uid now"
  define s' where "s' = snd (json_insert s d uid now)"
  note p = json_inv_parts[OF inv]
  have h: "heap s' = (heap s)(nxt s := ?d)" and dt: "data s' = data s @ [nxt s]"
    and ix: "indexes s' = map (index_insert ?d) (indexes s)"
    by (simp_all add: s'_def json_insert_eq)
  have live: "\<not> is_deleted ?d" using ok by (simp add: is_deleted_stamp)
  have "map (\<lambda>r. (id_of (heap s' r), heap s' r)) (data s)
          = map (\<lambda>r. (id_of (heap s r), heap s r)) (data s)"
  proof (rule map_cong)
    fix r assume "r \<in> set (data s)"
    then have "r \<noteq> nxt s" using p(4) by auto
    then show "(id_of (heap s' r), heap s' r) = (id_of (heap s r), heap s r)" by (simp add: h)
  qed simp
  then have recs: "json_recs s' = json_recs s @ [(id_of ?d, ?d)]"
    by (simp add: json_recs_def dt h)
  have "snd (index_insert ?d q) = rebuildIndex (fst (index_insert ?d q)) (json_recs s')"
    if "q \<in> set (indexes s)" for q
  proof -
    have "q = (fst q, rebuildIndex (fst q) (json_recs s))"
      using con that by (simp add: json_indexes_consistent_def list_all_iff prod_eq_iff)
    then have "index_insert ?d q = (fst q, rebuildIndex (fst q) (json_recs s'))"
      using index_insert_step[OF live, of "fst q" "json_recs s"] unfolding recs by simp
    then show ?thesis by simp
  qed
  then have "json_indexes_consistent s'"
    by (simp add: json_indexes_consistent_def list_all_iff ix)
  then show ?thesis by (simp add: s'_def)
qed

lemma consistent_update:
  assumes inv: "json_inv s" and ok: "json_ok s (Update i d now)"
    and con: "json_indexes_consistent s"
  shows "json_indexes_consistent (snd (json_update s i d now))"
proof -
  obtain res s1 where g: "json_get s i = (res, s1)" by fastforce
  note gi = json_get_inv[OF inv g]
  show ?thesis
  proof (cases res)
    case None
    then have "snd (json_update s i d now) = s" using g gi(3) by (simp add: json_update_eq)
    then show ?thesis using con by simp
  next
    case (Some e)
    define s' where "s' = snd (json_update s i d now)"
    let ?e = "heap s e" and ?u = "updatedData (heap s e) d now"
    obtain k where k: "k < length (data s)" "data s ! k = e"
      and e: "id_of ?e = i" "\<not> is_deleted ?e"
      and h: "heap s' = (heap s)(nxt s := ?u)"
      and dt: "data s' = (data s)[k := nxt s]"
      and ix: "indexes s' = map (index_update ?e d ?u i) (indexes s)"
      unfolding s'_def using json_update_success[OF inv g[unfolded Some], of d now] by metis
    note p = json_inv_parts[OF inv]
    have idu: "id_of ?u = i"
      using e(1) ok by (intro id_of_updatedData_kept) simp_all
    have liveu: "\<not> is_deleted ?u"
      using e(2) ok by (intro live_updatedData) simp_all
    have eq: "map (\<lambda>r. (id_of (heap s' r), heap s' r)) (data s)
            = map (\<lambda>r. (id_of (heap s r), heap s r)) (data s)"
    proof (rule map_cong)
      fix r assume "r \<in> set (data s)"
      then have "r \<noteq> nxt s" using p(4) by auto
      then show "(id_of (heap s' r), heap s' r) = (id_of (heap s r), heap s r)" by (simp add: h)
    qed simp
    have "json_recs s' = (map (\<lambda>r. (id_of (heap s' r), heap s' r)) (data s))
                           [k := (id_of (heap s' (nxt s)), heap s' (nxt s))]"
      by (simp only: json_recs_def dt map_update)
    also have "\<dots> = (json_recs s)[k := (i, ?u)]"
      unfolding eq json_recs_def by (simp add: h idu)
    finally have recs: "json_recs s' = (json_recs s)[k := (i, ?u)]" .
    have dk: "distinct (map fst (json_recs s))" using p(3) by (simp add: json_recs_keys)
    have kl: "k < length (json_recs s)" using k(1) by (simp add: json_recs_def)
    have rk: "json_recs s ! k = (i, ?e)" using k e(1) by (simp add: json_recs_def)
    have "\<forall>v. snd (index_update ?e d ?u i q) v =
              (if v = JUndef \<or> ids_holding (fst (index_update ?e d ?u i q)) (json_recs s') v = {} then None
               else Some (ids_holding (fst (index_update ?e d ?u i q)) (json_recs s') v))"
      if q: "q \<in> set (indexes s)" for q
    proof
      fix v
      let ?f = "fst q"
      have qx: "\<And>v. snd q v = (if v = JUndef \<or> ids_holding ?f (json_recs s) v = {} then None
                    else Some (ids_holding ?f (json_recs s) v))"
        using con q by (simp add: consistent_iff)
      have at: "\<And>v. i \<in> ids_holding ?f (json_recs s) v \<longleftrightarrow> obj_get ?e ?f = v"
        by (rule ids_holding_at[OF dk kl rk e(2)])
      have new: "ids_holding ?f (json_recs s') v
                  = (ids_holding ?f (json_recs s) v - {i}) \<union> (if obj_get ?u ?f = v then {i} else {})"
        unfolding recs using ids_holding_update[OF dk kl, of i ?f ?u v] rk liveu by simp
      have "snd (index_update ?e d ?u i (?f, snd q)) v =
           (if v = JUndef \<or> (ids_holding ?f (json_recs s) v - {i}) \<union> (if obj_get ?u ?f = v then {i} else {}) = {} then None
            else Some ((ids_holding ?f (json_recs s) v - {i}) \<union> (if obj_get ?u ?f = v then {i} else {})))"
        by (rule index_update_char[OF qx at not_differs_eq])
      then show "snd (index_update ?e d ?u i q) v =
              (if v = JUndef \<or> ids_holding (fst (index_update ?e d ?u i q)) (json_recs s') v = {} then None
               else Some (ids_holding (fst (index_update ?e d ?u i q)) (json_recs s') v))"
        unfolding fst_index_update new by simp
    qed
    then have "json_indexes_consistent s'"
      by (simp add: consistent_iff ix)
    then show ?thesis by (simp add: s'_def)
  qed
qed

lemma consistent_delete:
  assumes inv: "json_inv s" and fo: "index_fields_ok s" and con: "json_indexes_consistent s"
  shows "json_indexes_consistent (snd (json_delete s i now))"
proof -
  obtain res s1 where g: "json_get s i = (res, s1)" by fastforce
  note gi = json_get_inv[OF inv g]
  show ?thesis
  proof (cases res)
    case None
    then have "snd (json_delete s i now) = s" using g gi(3) by (simp add: json_delete_eq)
    then show ?thesis using con by simp
  next
    case (Some e)
    define s' where "s' = snd (json_delete s i now)"
    let ?e = "heap s e" and ?m = "mark_deleted (heap s e) now"
    obtain k where k: "k < length (data s)" "data s ! k = e"
      and e: "id_of ?e = i" "\<not> is_deleted ?e"
      and h: "heap s' = (heap s)(e := ?m)"
      and dt: "data s' = data s"
      and ix: "indexes s' = map (index_delete ?m i) (indexes s)"
      unfolding s'_def using json_delete_success[OF inv g[unfolded Some], of now] by metis
    note p = json_inv_parts[OF inv]
    have dd: "distinct (data s)" using p(3) by (simp add: distinct_map)
    have recs: "json_recs s' = (json_recs s)[k := (i, ?m)]"
    proof (rule nth_equalityI)
      show "length (json_recs s') = length ((json_recs s)[k := (i, ?m)])"
        by (simp add: json_recs_def dt)
      fix j assume "j < length (json_recs s')"
      then have j: "j < length (data s)" by (simp add: json_recs_def dt)
      show "json_recs s' ! j = (json_recs s)[k := (i, ?m)] ! j"
      proof (cases "j = k")
        case True
        then show ?thesis using k e(1) by (simp add: json_recs_def dt h id_of_mark)
      next
        case False
        then have "data s ! j \<noteq> e"
          using nth_eq_iff_index_eq[OF dd j k(1)] k(2) by simp
        then show ?thesis using False j by (simp add: json_recs_def dt h)
      qed
    qed
    have dk: "distinct (map fst (json_recs s))" using p(3) by (simp add: json_recs_keys)
    have kl: "k < length (json_recs s)" using k(1) by (simp add: json_recs_def)
    have rk: "json_recs s ! k = (i, ?e)" using k e(1) by (simp add: json_recs_def)
    have "\<forall>v. snd (index_delete ?m i q) v =
              (if v = JUndef \<or> ids_holding (fst (index_delete ?m i q)) (json_recs s') v = {} then None
               else Some (ids_holding (fst (index_delete ?m i q)) (json_recs s') v))"
      if q: "q \<in> set (indexes s)" for q
    proof
      fix v
      let ?f = "fst q"
      have fq: "?f \<noteq> ''_deleted''" "?f \<noteq> ''_deleted_at''"
        using fo q by (simp_all add: index_fields_ok_def list_all_iff)
      have qx: "\<And>v. snd q v = (if v = JUndef \<or> ids_holding ?f (json_recs s) v = {} then None
                    else Some (ids_holding ?f (json_recs s) v))"
        using con q by (simp add: consistent_iff)
      have at: "\<And>v. i \<in> ids_holding ?f (json_recs s) v \<longleftrightarrow> obj_get ?m ?f = v"
        using ids_holding_at[OF dk kl rk e(2), of ?f] by (simp add: obj_get_mark fq)
      have new: "ids_holding ?f (json_recs s') v = ids_holding ?f (json_recs s) v - {i}"
        unfolding recs using ids_holding_update[OF dk kl, of i ?f ?m v] rk
        by (simp add: is_deleted_mark)
      have "snd (index_delete ?m i (?f, snd q)) v =
           (if v = JUndef \<or> ids_holding ?f (json_recs s) v - {i} = {} then None
            else Some (ids_holding ?f (json_recs s) v - {i}))"
        by (rule index_delete_char[OF qx at])
      then show "snd (index_delete ?m i q) v =
              (if v = JUndef \<or> ids_holding (fst (index_delete ?m i q)) (json_recs s') v = {} then None
               else Some (ids_holding (fst (index_delete ?m i q)) (json_recs s') v))"
        unfolding fst_index_delete new by simp
    qed
    then have "json_indexes_consistent s'"
      by (simp add: consistent_iff ix)
    then show ?thesis by (simp add: s'_def)
  qed
qed

lemma consistent_rebuilt:
  assumes "heap t = heap s" "data t = data s" "indexes t = rebuild_all (json_recs s) ixs"
  shows "json_indexes_consistent t"
  using assms
  by (simp add: json_indexes_consistent_def json_recs_def rebuild_all_def list_all_iff)

lemma consistent_compact: "json_indexes_consistent (snd (json_compact s))"
  by (rule consistent_rebuilt[where ixs = "indexes s" and
        s = "(load (map (without [''_created'', ''_updated''])
                (filter (\<lambda>ob. \<not> is_deleted ob) (map (heap s) (data s))))
              (s\<lparr>dataFile := Some (map json_rt_props (map (without [''_created'', ''_updated''])
                (filter (\<lambda>ob. \<not> is_deleted ob) (map (heap s) (data s))))),
                 walFile := None, data := []\<rparr>))"])
     (simp_all add: json_compact_def Let_def load_same json_recs_def)

lemma consistent_restore:
  "json_indexes_consistent s \<Longrightarrow> json_indexes_consistent (snd (json_restore s bfile))"
proof (cases bfile)
  case None
  assume "json_indexes_consistent s"
  then show ?thesis using None by (simp add: json_restore_def)
next
  case (Some recs)
  show ?thesis
    by (rule consistent_rebuilt[where ixs = "indexes s" and
          s = "load recs (s\<lparr>data := [], cache := clearCache (cache s)\<rparr>)"])
       (simp_all add: Some json_restore_def Let_def load_same saveData_def json_recs_def)
qed

lemma consistent_createIndex:
  "json_indexes_consistent s \<Longrightarrow> json_indexes_consistent (json_createIndex s f)"
  by (simp add: json_createIndex_def json_indexes_consistent_def json_recs_def)

lemma consistent_get:
  "json_indexes_consistent s \<Longrightarrow> json_indexes_consistent (snd (json_get s i))"
  using json_get_same[of s i "fst (json_get s i)" "snd (json_get s i)"]
  by (simp add: json_indexes_consistent_def json_recs_def)

lemma fields_ok_step: "index_fields_ok s \<Longrightarrow> index_ok c \<Longrightarrow> index_fields_ok (json_step s c)"
proof (cases c)
  case (Insert d uid now)
  assume "index_fields_ok s"
  then show ?thesis using Insert
    by (simp add: index_fields_ok_def json_insert_eq list_all_iff fst_index_insert)
next
  case (Update i d now)
  assume "index_fields_ok s"
  then show ?thesis using Update json_get_same(4)[of s i "fst (json_get s i)" "snd (json_get s i)"]
    by (auto simp: index_fields_ok_def json_update_eq list_all_iff fst_index_update
             split: prod.splits option.splits)
next
  case (Delete i now)
  assume "index_fields_ok s"
  then show ?thesis using Delete json_get_same(4)[of s i "fst (json_get s i)" "snd (json_get s i)"]
    by (auto simp: index_fields_ok_def json_delete_eq list_all_iff fst_index_delete
             split: prod.splits option.splits)
next
  case (Get i)
  assume "index_fields_ok s"
  then show ?thesis using Get json_get_same(4)[of s i "fst (json_get s i)" "snd (json_get s i)"]
    by (simp add: index_fields_ok_def)
next
  case (CreateIndex f)
  assume "index_fields_ok s" "index_ok c"
  then show ?thesis using CreateIndex
    by (simp add: index_fields_ok_def json_createIndex_def)
next
  case Compact
  assume "index_fields_ok s"
  then show ?thesis using Compact
    by (simp add: index_fields_ok_def json_compact_def Let_def rebuild_all_def load_same
          list_all_iff clearCache_def)
next
  case (Restore bfile uids clock)
  assume "index_fields_ok s"
  then show ?thesis using Restore
    by (cases bfile)
       (simp_all add: index_fields_ok_def json_restore_def Let_def rebuild_all_def load_same
          saveData_def list_all_iff)
qed

lemma consistent_step:
  assumes "json_inv s" "json_ok s c" "index_fields_ok s" "json_indexes_consistent s"
  shows "json_indexes_consistent (json_step s c)"
  using assms
  by (cases c)
     (simp_all add: consistent_insert consistent_update consistent_delete consistent_get
        consistent_createIndex consistent_compact consistent_restore)

lemma consistent_run:
  "json_inv s \<Longrightarrow> json_ok_run s cs \<Longrightarrow> list_all index_ok cs \<Longrightarrow> index_fields_ok s \<Longrightarrow>
   json_indexes_consistent s \<Longrightarrow> json_indexes_consistent (json_run s cs)"
proof (induction cs arbitrary: s)
  case Nil
  then show ?case by simp
next
  case (Cons c cs)
  have "json_indexes_consistent (json_run (json_step s c) cs)"
  proof (rule Cons.IH)
    show "json_inv (json_step s c)" using Cons.prems by (simp add: json_inv_step)
    show "json_ok_run (json_step s c) cs" using Cons.prems by simp
    show "list_all index_ok cs" using Cons.prems by simp
    show "index_fields_ok (json_step s c)" using Cons.prems by (simp add: fields_ok_step)
    show "json_indexes_consistent (json_step s c)" using Cons.prems by (simp add: consistent_step)
  qed
  then show ?case by simp
qed

text \<open>
  Claim C3, as amended.  Start from a new collection and let the caller be disciplined:
  every \<open>insert\<close> stores a primitive id that no stored record has, live or deleted; no
  object passed to \<open>insert\<close> or \<open>update\<close> gives \<open>_deleted\<close> a truthy value; every
  \<open>update(id, data)\<close> leaves the id as it is (\<open>data\<close> does not name \<open>id\<close>, or gives it the
  value \<open>id\<close>); a restored backup holds distinct primitive ids; and no index is created on
  \<open>_deleted\<close> or \<open>_deleted_at\<close>.  Then after any sequence of \<open>insert\<close>, \<open>update\<close>,
  \<open>delete\<close>, \<open>get\<close>, \<open>createIndex\<close>, \<open>compact\<close> and \<open>restore\<close> calls, every index is exactly
  what \<open>rebuildIndex\<close> computes from the records then stored.
\<close>

theorem index_consistency:
  "json_ok_run (json_new n None None) cs \<and> list_all index_ok cs \<longrightarrow>
     json_indexes_consistent (json_run (json_new n None None) cs)"
proof
  assume a: "json_ok_run (json_new n None None) cs \<and> list_all index_ok cs"
  show "json_indexes_consistent (json_run (json_new n None None) cs)"
  proof (rule consistent_run)
    show "json_inv (json_new n None None)" by (rule json_inv_new)
    show "json_ok_run (json_new n None None) cs" "list_all index_ok cs" using a by simp_all
    show "index_fields_ok (json_new n None None)" by (simp add: index_fields_ok_def json_new_def)
    show "json_indexes_consistent (json_new n None None)"
      by (simp add: json_indexes_consistent_def json_new_def)
  qed
qed

lemmas index_eval = rebuildIndex_def rebuild_step_def index_add_def index_remove_def
  index_insert_def index_update_def index_delete_def field_differs_def

theorem index_consistency_witness:
  "json_ok_run (json_new 0 None None) indexed_calls
   \<and> list_all index_ok indexed_calls
   \<and> json_indexes_consistent (json_run (json_new 0 None None) indexed_calls)
   \<and> map (\<lambda>p. (fst p, snd p (JNum 1), snd p (JNum 2)))
         (indexes (json_run (json_new 0 None None) indexed_calls))
       = [(''x'', None, Some {JStr ''a''})]"
proof -
  have ok: "json_ok_run (json_new 0 None None) indexed_calls"
    by (simp add: indexed_calls_def run_eval is_primitive_def)
  have io: "list_all index_ok indexed_calls"
    by (simp add: indexed_calls_def)
  have ix: "map (\<lambda>p. (fst p, snd p (JNum 1), snd p (JNum 2)))
         (indexes (json_run (json_new 0 None None) indexed_calls))
       = [(''x'', None, Some {JStr ''a''})]"
    by (simp add: indexed_calls_def run_eval index_eval insert_Diff_if)
  show ?thesis
    using ok io ix index_consistency[of 0 indexed_calls] by blast
qed

text \<open>
  After \<open>update("a", {id: "b"})\<close> the index on \<open>x\<close> still lists the id \<open>a\<close> under the
  value 1, and a rebuild lists \<open>b\<close>.  When the id of a deleted record is used again and the
  new record is updated, \<open>update\<close> puts the result in the place of the deleted record
  (\<open>findIndex\<close> does not look at \<open>_deleted\<close>) and the record it read stays in the array:
  two live records carry the id, the index has dropped the value 2, and a rebuild lists it.
\<close>

theorem index_consistency_counterexample:
  "map (\<lambda>p. (fst p, snd p (JNum 1)))
     (indexes (json_run (json_new 0 None None)
        [CreateIndex ''x'',
         Insert [(''id'', JStr ''a''), (''x'', JNum 1)] ''u1'' ''t1'',
         Update (JStr ''a'') [(''id'', JStr ''b'')] ''t2'']))
     = [(''x'', Some {JStr ''a''})]
   \<and> rebuildIndex ''x'' (json_recs (json_run (json_new 0 None None)
        [CreateIndex ''x'',
         Insert [(''id'', JStr ''a''), (''x'', JNum 1)] ''u1'' ''t1'',
         Update (JStr ''a'') [(''id'', JStr ''b'')] ''t2''])) (JNum 1)
     = Some {JStr ''b''}
   \<and> map (\<lambda>p. (fst p, snd p (JNum 2)))
       (indexes (json_run (json_new 0 None None) reused_id_calls))
     = [(''x'', None)]
   \<and> rebuildIndex ''x'' (json_recs (json_run (json_new 0 None None) reused_id_calls)) (JNum 2)
     = Some {JStr ''a''}"
  by (simp add: reused_id_calls_def run_eval index_eval)

section \<open>The invariant of the in-memory engine\<close>

lemma mem_get_same:
  assumes "mem_get s i = (res, s1)"
  shows "heap s1 = heap s" "mdata s1 = mdata s" "nxt s1 = nxt s" "indexes s1 = indexes s"
    "cacheSize s1 = cacheSize s"
  using assms by (auto simp: mem_get_eq split: option.splits if_splits)

lemma mem_inv_parts:
  assumes "mem_inv s"
  shows "distinct (map fst (cache s))"
    and "\<And>p. p \<in> set (cache s) \<Longrightarrow>
          map_of (mdata s) (fst p) = Some (snd p) \<and> \<not> is_deleted (heap s (snd p))"
    and "distinct (map fst (mdata s))"
    and "distinct (map snd (mdata s))"
    and "\<And>p. p \<in> set (mdata s) \<Longrightarrow> snd p < nxt s"
  using assms by (auto simp: mem_inv_def)

lemma mem_invI:
  assumes "distinct (map fst (cache s))"
    and "\<And>p. p \<in> set (cache s) \<Longrightarrow>
          map_of (mdata s) (fst p) = Some (snd p) \<and> \<not> is_deleted (heap s (snd p))"
    and "distinct (map fst (mdata s))"
    and "distinct (map snd (mdata s))"
    and "\<And>p. p \<in> set (mdata s) \<Longrightarrow> snd p < nxt s"
  shows "mem_inv s"
  using assms by (auto simp: mem_inv_def)

lemma mem_get_inv:
  assumes inv: "mem_inv s" and g: "mem_get s i = (res, s1)"
  shows "mem_inv s1"
    and "res = Some e \<Longrightarrow> map_of (mdata s) i = Some e \<and> \<not> is_deleted (heap s e)"
    and "res = None \<Longrightarrow> s1 = s"
proof -
  note same = mem_get_same[OF g]
  note p = mem_inv_parts[OF inv]
  show "res = None \<Longrightarrow> s1 = s"
    using g by (auto simp: mem_get_eq split: option.splits if_splits)
  have found: "map_of (mdata s) i = Some e' \<and> \<not> is_deleted (heap s e')" if "res = Some e'" for e'
  proof (cases "map_of (cache s) i")
    case None
    then show ?thesis using g that by (auto simp: mem_get_eq split: option.splits if_splits)
  next
    case (Some r)
    then have "r = e'" using g that by (auto simp: mem_get_eq)
    moreover have "(i, r) \<in> set (cache s)" using Some by (rule map_of_SomeD)
    ultimately show ?thesis using p(2)[of "(i, r)"] by simp
  qed
  show "res = Some e \<Longrightarrow> map_of (mdata s) i = Some e \<and> \<not> is_deleted (heap s e)"
    by (rule found)
  have c1: "distinct (map fst (cache s1))
      \<and> (\<forall>q\<in>set (cache s1). q \<in> set (cache s) \<or> (res = Some (snd q) \<and> fst q = i))"
  proof (cases "map_of (cache s) i")
    case None
    show ?thesis
    proof (cases res)
      case None
      then show ?thesis using g p(1) by (auto simp: mem_get_eq split: option.splits if_splits)
    next
      case (Some r)
      then have "cache s1 = setToCache (cacheSize s) (cache s) i r"
        using g \<open>map_of (cache s) i = None\<close>
        by (auto simp: mem_get_eq split: option.splits if_splits)
      then show ?thesis
        using p(1) Some setToCache_entries[OF p(1), where n = "cacheSize s" and k = i and v = r]
        by (fastforce simp: setToCache_distinct)
    qed
  next
    case (Some r)
    then have "cache s1 = map_delete i (cache s) @ [(i, r)]" "res = Some r"
      using g by (auto simp: mem_get_eq)
    then show ?thesis
      using promote_distinct[OF p(1), where k = i and v = r] by (auto simp: map_delete_entries)
  qed
  show "mem_inv s1"
  proof (rule mem_invI)
    show "distinct (map fst (cache s1))" using c1 by simp
    show "distinct (map fst (mdata s1))" "distinct (map snd (mdata s1))"
      using p(3,4) by (simp_all add: same)
    show "snd q < nxt s1" if "q \<in> set (mdata s1)" for q
      using p(5) that by (simp add: same)
    fix q assume q: "q \<in> set (cache s1)"
    then consider "q \<in> set (cache s)" | "res = Some (snd q)" "fst q = i" using c1 by blast
    then show "map_of (mdata s1) (fst q) = Some (snd q) \<and> \<not> is_deleted (heap s1 (snd q))"
    proof cases
      case 1
      then show ?thesis using p(2) by (simp add: same)
    next
      case 2
      then show ?thesis using found[of "snd q"] by (simp add: same)
    qed
  qed
qed

lemma snd_map_set_subset: "snd ` set (map_set k r m) \<subseteq> insert r (snd ` set m)"
  by (induction m) auto

lemma distinct_snd_map_set:
  "distinct (map snd m) \<Longrightarrow> r \<notin> snd ` set m \<Longrightarrow> distinct (map snd (map_set k r m))"
proof (induction m)
  case Nil
  then show ?case by simp
next
  case (Cons p m)
  show ?case
  proof (cases "fst p = k")
    case True
    then show ?thesis using Cons.prems by simp
  next
    case False
    have ih: "distinct (map snd (map_set k r m))" using Cons by simp
    have "snd p \<notin> insert r (snd ` set m)" using Cons.prems by auto
    then have "snd p \<notin> snd ` set (map_set k r m)"
      using snd_map_set_subset[of k r m] by blast
    then show ?thesis using False ih by simp
  qed
qed

lemma distinct_snd_key:
  assumes "distinct (map snd m)" "(a, x) \<in> set m" "(b, x) \<in> set m"
  shows "a = b"
proof -
  have "inj_on snd (set m)" using assms(1) by (simp add: distinct_map)
  from inj_onD[OF this, of "(a, x)" "(b, x)"] show ?thesis using assms(2,3) by simp
qed

text \<open>Storing a new object under a key: the step of \<open>insert\<close>, \<open>update\<close>, \<open>restore\<close>.\<close>

lemma mem_inv_store:
  assumes inv: "mem_inv s" and live: "\<not> is_deleted ob"
    and h: "heap s' = (heap s)(nxt s := ob)" and n: "nxt s' = Suc (nxt s)"
    and m: "mdata s' = map_set k (nxt s) (mdata s)"
    and c: "cache s' = setToCache (cacheSize s) (cache s) k (nxt s)"
  shows "mem_inv s'"
proof (rule mem_invI)
  note p = mem_inv_parts[OF inv]
  have fresh: "nxt s \<notin> snd ` set (mdata s)" using p(5) by fastforce
  show "distinct (map fst (cache s'))" by (simp add: c setToCache_distinct p(1))
  show "distinct (map fst (mdata s'))" by (simp add: m distinct_map_set p(3))
  show "distinct (map snd (mdata s'))" by (simp add: m distinct_snd_map_set p(4) fresh)
  show "snd q < nxt s'" if "q \<in> set (mdata s')" for q
  proof -
    have "snd q \<in> insert (nxt s) (snd ` set (mdata s))"
      using that snd_map_set_subset[of k "nxt s" "mdata s"] unfolding m by auto
    then show ?thesis using p(5) by (auto simp: n less_Suc_eq)
  qed
  fix q assume "q \<in> set (cache s')"
  then consider "q = (k, nxt s)" | "q \<in> set (cache s)" "fst q \<noteq> k"
    using setToCache_entries[OF p(1)] unfolding c by blast
  then show "map_of (mdata s') (fst q) = Some (snd q) \<and> \<not> is_deleted (heap s' (snd q))"
  proof cases
    case 1
    then show ?thesis by (simp add: m h map_of_map_set live)
  next
    case 2
    note pq = p(2)[OF 2(1)]
    have "(fst q, snd q) \<in> set (mdata s)" using pq map_of_SomeD by fastforce
    then have "snd q \<noteq> nxt s" using p(5) by fastforce
    then show ?thesis using pq 2(2) by (simp add: m h map_of_map_set del: map_of_eq_Some_iff)
  qed
qed

lemma mem_inv_insert:
  assumes "mem_inv s" "mem_ok (Insert d uid now)"
  shows "mem_inv (snd (mem_insert s d uid now))"
  by (rule mem_inv_store[OF assms(1), where ob = "stamp_insert d uid now"
        and k = "id_of (stamp_insert d uid now)"])
     (use assms(2) in \<open>simp_all add: mem_insert_eq is_deleted_stamp\<close>)

lemma mem_inv_update:
  assumes inv0: "mem_inv s0" and ok: "mem_ok (Update i d now)"
  shows "mem_inv (snd (mem_update s0 i d now))"
proof -
  obtain res s where g: "mem_get s0 i = (res, s)" by fastforce
  note gi = mem_get_inv[OF inv0 g] and same = mem_get_same[OF g]
  show ?thesis
  proof (cases res)
    case None
    then show ?thesis using g gi(1) by (simp add: mem_update_eq)
  next
    case (Some e)
    have e: "\<not> is_deleted (heap s e)" using gi(2)[of e] Some same by simp
    show ?thesis
      by (rule mem_inv_store[OF gi(1), where ob = "updatedData (heap s e) d now" and k = i])
         (use g Some ok e in \<open>simp_all add: mem_update_eq live_updatedData\<close>)
  qed
qed

lemma mem_inv_delete:
  assumes inv0: "mem_inv s0"
  shows "mem_inv (snd (mem_delete s0 i now))"
proof -
  obtain res s where g: "mem_get s0 i = (res, s)" by fastforce
  note gi = mem_get_inv[OF inv0 g] and same = mem_get_same[OF g]
  show ?thesis
  proof (cases res)
    case None
    then show ?thesis using g gi(1) by (simp add: mem_delete_eq)
  next
    case (Some e)
    note p = mem_inv_parts[OF gi(1)]
    define s' where "s' = snd (mem_delete s0 i now)"
    have e: "(i, e) \<in> set (mdata s)"
      using gi(2)[of e] Some same map_of_SomeD by fastforce
    have h: "heap s' = (heap s)(e := mark_deleted (heap s e) now)" and n: "nxt s' = nxt s"
      and m: "mdata s' = mdata s" and c: "cache s' = map_delete i (cache s)"
      using g Some by (simp_all add: s'_def mem_delete_eq)
    have "mem_inv s'"
    proof (rule mem_invI)
      show "distinct (map fst (cache s'))" by (simp add: c map_delete_distinct p(1))
      show "distinct (map fst (mdata s'))" "distinct (map snd (mdata s'))"
        using p(3,4) by (simp_all add: m)
      show "snd q < nxt s'" if "q \<in> set (mdata s')" for q
        using p(5) that by (simp add: m n)
      fix q assume "q \<in> set (cache s')"
      then have q: "q \<in> set (cache s)" "fst q \<noteq> i" by (simp_all add: c map_delete_entries)
      note pq = p(2)[OF q(1)]
      have "(fst q, snd q) \<in> set (mdata s)" using pq map_of_SomeD by fastforce
      then have "snd q \<noteq> e" using distinct_snd_key[OF p(4) _ e] q(2) by blast
      then show "map_of (mdata s') (fst q) = Some (snd q) \<and> \<not> is_deleted (heap s' (snd q))"
        using pq by (simp add: m h del: map_of_eq_Some_iff)
    qed
    then show ?thesis by (simp add: s'_def)
  qed
qed

lemma mem_store_same:
  "cache (mem_store ps s) = cache s" "indexes (mem_store ps s) = indexes s"
  "cacheSize (mem_store ps s) = cacheSize s"
  by (induction ps arbitrary: s) auto

lemma mem_store_inv:
  assumes "distinct (map fst (mdata s))" "distinct (map snd (mdata s))"
    "\<And>p. p \<in> set (mdata s) \<Longrightarrow> snd p < nxt s"
  shows "distinct (map fst (mdata (mem_store ps s)))
       \<and> distinct (map snd (mdata (mem_store ps s)))
       \<and> (\<forall>p\<in>set (mdata (mem_store ps s)). snd p < nxt (mem_store ps s))"
  using assms
proof (induction ps arbitrary: s)
  case Nil
  then show ?case by simp
next
  case (Cons q ps)
  let ?s = "s\<lparr>heap := (heap s)(nxt s := snd q), nxt := Suc (nxt s),
                mdata := map_set (fst q) (nxt s) (mdata s)\<rparr>"
  have fresh: "nxt s \<notin> snd ` set (mdata s)" using Cons.prems(3) by fastforce
  have "distinct (map fst (mdata (mem_store ps ?s)))
       \<and> distinct (map snd (mdata (mem_store ps ?s)))
       \<and> (\<forall>p\<in>set (mdata (mem_store ps ?s)). snd p < nxt (mem_store ps ?s))"
  proof (rule Cons.IH)
    show "distinct (map fst (mdata ?s))" using Cons.prems(1) by (simp add: distinct_map_set)
    show "distinct (map snd (mdata ?s))"
      using Cons.prems(2) fresh by (simp add: distinct_snd_map_set)
    show "snd p < nxt ?s" if "p \<in> set (mdata ?s)" for p
    proof -
      have "snd p \<in> insert (nxt s) (snd ` set (mdata s))"
        using that snd_map_set_subset[of "fst q" "nxt s" "mdata s"] by auto
      then show ?thesis using Cons.prems(3) by (auto simp: less_Suc_eq)
    qed
  qed
  then show ?case by simp
qed

lemma mem_inv_stored:
  assumes "mdata t = []" "cache s' = []" "mdata s' = mdata (mem_store ps t)"
    "nxt s' = nxt (mem_store ps t)"
  shows "mem_inv s'"
  using mem_store_inv[of t ps] assms by (simp add: mem_inv_def)

lemma mem_inv_compact: "mem_inv (snd (mem_compact s))"
  by (rule mem_inv_stored[where t = "s\<lparr>mdata := []\<rparr>" and
        ps = "map (\<lambda>p. (fst p, without system_fields (snd p)))
                (filter (\<lambda>p. \<not> is_deleted (snd p)) (mem_recs s))"])
     (simp_all add: mem_compact_def Let_def clearCache_def)

lemma mem_inv_restore: "mem_inv s \<Longrightarrow> mem_inv (snd (mem_restore s bfile uids clock))"
proof (cases bfile)
  case None
  assume "mem_inv s"
  then show ?thesis using None by (simp add: mem_restore_def)
next
  case (Some recs)
  show ?thesis
    by (rule mem_inv_stored[where t = "s\<lparr>mdata := [], cache := clearCache (cache s)\<rparr>" and
          ps = "map (\<lambda>k. restored (recs ! k) (uids k) (clock k)) [0..<length recs]"])
       (simp_all add: Some mem_restore_def Let_def mem_store_same clearCache_def)
qed

lemma mem_inv_createIndex: "mem_inv s \<Longrightarrow> mem_inv (mem_createIndex s f)"
  by (simp add: mem_inv_def mem_createIndex_def del: map_of_eq_Some_iff)

lemma mem_inv_step: "mem_inv s \<Longrightarrow> mem_ok c \<Longrightarrow> mem_inv (mem_step s c)"
proof (cases c)
  case (Get i)
  assume "mem_inv s"
  then show ?thesis using mem_get_inv(1)[of s i "fst (mem_get s i)" "snd (mem_get s i)"] Get
    by simp
qed (simp_all add: mem_inv_insert mem_inv_update mem_inv_delete mem_inv_compact
       mem_inv_restore mem_inv_createIndex)

lemma mem_inv_run: "mem_inv s \<Longrightarrow> list_all mem_ok cs \<Longrightarrow> mem_inv (mem_run s cs)"
  by (induction cs arbitrary: s) (simp_all add: mem_inv_step)

lemma mem_inv_new: "mem_inv (mem_new n)"
  by (simp add: mem_inv_def mem_new_def)

lemma mem_inv_coherent: "mem_inv s \<Longrightarrow> mem_coherent s"
  by (simp add: mem_inv_def mem_coherent_def list_all_iff del: map_of_eq_Some_iff)

section \<open>Cache coherence\<close>

lemma cache_after_delete: "map_of (cache (snd (json_delete s i now))) i = None"
proof (cases "json_get s i")
  case (Pair res s1)
  show ?thesis
  proof (cases res)
    case None
    then have "map_of (cache s) i = None" "s1 = s"
      using Pair by (auto simp: json_get_eq split: option.splits)
    then show ?thesis using Pair None by (simp add: json_delete_eq)
  next
    case (Some e)
    then show ?thesis
      using Pair map_delete_no_key[of i "cache s1"]
      by (simp add: json_delete_eq map_of_eq_None_iff)
  qed
qed

lemma map_of_setToCache: "map_of (setToCache n c k v) k = Some v"
  by (simp add: setToCache_def map_of_map_set)

lemma find_update_same:
  "p < length xs \<Longrightarrow> \<not> P (xs ! p) \<Longrightarrow> \<not> P y \<Longrightarrow> List.find P (xs[p := y]) = List.find P xs"
proof (induction xs arbitrary: p)
  case Nil
  then show ?case by simp
next
  case (Cons x xs)
  then show ?case by (cases p) auto
qed

lemma find_update_at:
  assumes "findIndex Q xs = Some p" "\<And>x. x \<in> set xs \<Longrightarrow> P x \<Longrightarrow> Q x" "P y"
  shows "List.find P (xs[p := y]) = Some y"
  using assms
proof (induction xs arbitrary: p)
  case Nil
  then show ?case by simp
next
  case (Cons x xs)
  show ?case
  proof (cases "Q x")
    case True
    then have "p = 0" using Cons.prems(1) by simp
    then show ?thesis using Cons.prems(3) by simp
  next
    case False
    then obtain p' where p': "findIndex Q xs = Some p'" "p = Suc p'"
      using Cons.prems(1) by (auto split: option.splits)
    have np: "\<not> P x" using False Cons.prems(2)[of x] by auto
    have "List.find P (xs[p' := y]) = Some y"
      using Cons.IH[OF p'(1) _ Cons.prems(3)] Cons.prems(2) by auto
    then show ?thesis using np p'(2) by simp
  qed
qed

lemma find_snoc:
  "List.find P (xs @ [y]) =
     (case List.find P xs of Some r \<Rightarrow> Some r | None \<Rightarrow> if P y then Some y else None)"
  by (induction xs) auto

lemma find_cong_set:
  "(\<And>x. x \<in> set xs \<Longrightarrow> P x = Q x) \<Longrightarrow> List.find P xs = List.find Q xs"
  by (induction xs) auto

lemma find_SomeD: "List.find P xs = Some r \<Longrightarrow> r \<in> set xs \<and> P r"
  by (induction xs) (auto split: if_splits)

lemma find_None: "List.find P xs = None \<longleftrightarrow> (\<forall>x\<in>set xs. \<not> P x)"
  by (induction xs) auto

lemma strict_eq_refl: "strict_eq a b \<Longrightarrow> strict_eq b b"
  by (cases a) auto

lemma cache_inv_parts:
  assumes "cache_inv s"
  shows "distinct (map fst (cache s))"
    and "\<And>p. p \<in> set (cache s) \<Longrightarrow>
          List.find (\<lambda>r. strict_eq (id_of (heap s r)) (fst p) \<and> \<not> is_deleted (heap s r)) (data s)
            = Some (snd p)"
    and "\<And>r. r \<in> set (data s) \<Longrightarrow> r < nxt s"
  using assms by (auto simp: cache_inv_def json_coherent_def list_all_iff)

lemma cache_invI:
  assumes "distinct (map fst (cache s))"
    and "\<And>p. p \<in> set (cache s) \<Longrightarrow>
          List.find (\<lambda>r. strict_eq (id_of (heap s r)) (fst p) \<and> \<not> is_deleted (heap s r)) (data s)
            = Some (snd p)"
    and "\<And>r. r \<in> set (data s) \<Longrightarrow> r < nxt s"
  shows "cache_inv s"
  using assms by (auto simp: cache_inv_def json_coherent_def list_all_iff)

lemma cache_get_inv:
  assumes inv: "cache_inv s" and g: "json_get s i = (res, s1)"
  shows "cache_inv s1"
    and "res = Some e \<Longrightarrow>
          List.find (\<lambda>r. strict_eq (id_of (heap s r)) i \<and> \<not> is_deleted (heap s r)) (data s) = Some e"
proof -
  note p = cache_inv_parts[OF inv] and same = json_get_same[OF g]
  show "cache_inv s1"
  proof (cases "map_of (cache s) i")
    case (Some r)
    then have c: "cache s1 = map_delete i (cache s) @ [(i, r)]"
      using g by (auto simp: json_get_eq)
    have ir: "(i, r) \<in> set (cache s)" using Some by (rule map_of_SomeD)
    show ?thesis
    proof (rule cache_invI)
      show "distinct (map fst (cache s1))" unfolding c by (rule promote_distinct[OF p(1)])
      show "r' < nxt s1" if "r' \<in> set (data s1)" for r' using that p(3) by (simp add: same)
      fix q assume "q \<in> set (cache s1)"
      then have "q \<in> set (cache s)" using ir by (auto simp: c map_delete_entries)
      then show "List.find (\<lambda>r. strict_eq (id_of (heap s1 r)) (fst q) \<and> \<not> is_deleted (heap s1 r)) (data s1)
            = Some (snd q)"
        using p(2) by (simp add: same)
    qed
  next
    case None
    show ?thesis
    proof (cases "List.find (\<lambda>r. strict_eq (id_of (heap s r)) i \<and> \<not> is_deleted (heap s r)) (data s)")
      case None': None
      then have "s1 = s" using g None by (simp add: json_get_eq)
      then show ?thesis using inv by simp
    next
      case (Some r)
      then have c: "cache s1 = setToCache (cacheSize s) (cache s) i r"
        using g None by (auto simp: json_get_eq)
      show ?thesis
      proof (rule cache_invI)
        show "distinct (map fst (cache s1))" unfolding c by (rule setToCache_distinct[OF p(1)])
        show "r' < nxt s1" if "r' \<in> set (data s1)" for r' using that p(3) by (simp add: same)
        fix q assume "q \<in> set (cache s1)"
        then have "q = (i, r) \<or> q \<in> set (cache s)"
          using setToCache_entries[OF p(1)] unfolding c by blast
        then show "List.find (\<lambda>r. strict_eq (id_of (heap s1 r)) (fst q) \<and> \<not> is_deleted (heap s1 r)) (data s1)
            = Some (snd q)"
          using p(2) Some by (auto simp: same)
      qed
    qed
  qed
  show "List.find (\<lambda>r. strict_eq (id_of (heap s r)) i \<and> \<not> is_deleted (heap s r)) (data s) = Some e"
    if "res = Some e"
  proof (cases "map_of (cache s) i")
    case (Some r)
    then have "res = Some r" using g by (auto simp: json_get_eq)
    then have "r = e" using that by simp
    then show ?thesis using p(2)[OF map_of_SomeD[OF Some]] by simp
  next
    case None
    then show ?thesis using g that by (auto simp: json_get_eq split: option.splits)
  qed
qed

lemma cache_inv_insert:
  assumes inv: "cache_inv s" and ok: "cache_ok s (Insert d uid now)"
  shows "cache_inv (snd (json_insert s d uid now))"
proof -
  note p = cache_inv_parts[OF inv]
  define u where "u = stamp_insert d uid now"
  define s' where "s' = snd (json_insert s d uid now)"
  have h: "heap s' = (heap s)(nxt s := u)" and n: "nxt s' = Suc (nxt s)"
    and c: "cache s' = setToCache (cacheSize s) (cache s) (id_of u) (nxt s)"
    and dt: "data s' = data s @ [nxt s]"
    by (simp_all add: s'_def u_def json_insert_eq)
  have old: "heap s' r = heap s r" if "r \<in> set (data s)" for r
    using p(3)[OF that] by (simp add: h)
  have liveu: "\<not> is_deleted u" using ok by (simp add: u_def is_deleted_stamp)
  have pr: "is_primitive (id_of u)" using ok by (simp add: u_def)
  have fresh: "\<not> (strict_eq (id_of (heap s r)) (id_of u) \<and> \<not> is_deleted (heap s r))"
    if "r \<in> set (data s)" for r
  proof
    assume a: "strict_eq (id_of (heap s r)) (id_of u) \<and> \<not> is_deleted (heap s r)"
    then have "id_of (heap s r) = id_of u" by (auto dest: strict_eq_imp_eq)
    moreover have "heap s r \<in> set (filter (\<lambda>ob. \<not> is_deleted ob) (map (heap s) (data s)))"
      using that a by auto
    ultimately have "id_of u \<in> set (map id_of (filter (\<lambda>ob. \<not> is_deleted ob) (map (heap s) (data s))))"
      by (metis image_eqI set_map)
    then show False using ok by (simp add: u_def)
  qed
  have fnd: "List.find (\<lambda>r. strict_eq (id_of (heap s' r)) k \<and> \<not> is_deleted (heap s' r)) (data s)
             = List.find (\<lambda>r. strict_eq (id_of (heap s r)) k \<and> \<not> is_deleted (heap s r)) (data s)" for k
    by (rule find_cong_set) (simp add: old)
  have "cache_inv s'"
  proof (rule cache_invI)
    show "distinct (map fst (cache s'))" unfolding c by (rule setToCache_distinct[OF p(1)])
    show "r < nxt s'" if "r \<in> set (data s')" for r
      using that p(3) by (auto simp: dt n less_Suc_eq)
    fix q assume "q \<in> set (cache s')"
    then consider "q = (id_of u, nxt s)" | "q \<in> set (cache s)"
      using setToCache_entries[OF p(1)] unfolding c by blast
    then show "List.find (\<lambda>r. strict_eq (id_of (heap s' r)) (fst q) \<and> \<not> is_deleted (heap s' r)) (data s')
            = Some (snd q)"
    proof cases
      case 1
      have "List.find (\<lambda>r. strict_eq (id_of (heap s r)) (id_of u) \<and> \<not> is_deleted (heap s r)) (data s) = None"
        using fresh by (simp add: find_None)
      then have f1: "List.find (\<lambda>r. strict_eq (id_of (heap s' r)) (id_of u) \<and> \<not> is_deleted (heap s' r)) (data s) = None"
        by (simp add: fnd)
      have new: "heap s' (nxt s) = u" by (simp add: h)
      show ?thesis
        using 1 liveu pr by (simp add: dt find_snoc f1 new strict_eq_primitive)
    next
      case 2
      then show ?thesis using p(2)[OF 2] by (simp add: dt find_snoc fnd)
    qed
  qed
  then show ?thesis by (simp add: s'_def)
qed

lemma cache_inv_update:
  assumes inv0: "cache_inv s0" and ok: "cache_ok s0 (Update i d now)"
  shows "cache_inv (snd (json_update s0 i d now))"
proof -
  obtain res s where g: "json_get s0 i = (res, s)" by fastforce
  note gi = cache_get_inv[OF inv0 g] and same = json_get_same[OF g]
  show ?thesis
  proof (cases res)
    case None
    then show ?thesis using g gi(1) by (simp add: json_update_eq)
  next
    case (Some e)
    note inv = gi(1)
    note p = cache_inv_parts[OF inv]
    have fe: "List.find (\<lambda>r. strict_eq (id_of (heap s r)) i \<and> \<not> is_deleted (heap s r)) (data s) = Some e"
      using gi(2)[of e] Some same by simp
    then have e: "e \<in> set (data s)" "strict_eq (id_of (heap s e)) i" "\<not> is_deleted (heap s e)"
      using find_SomeD[OF fe] by simp_all
    have ide: "id_of (heap s e) = i" using e(2) by (rule strict_eq_imp_eq)
    have ii: "strict_eq i i" using e(2) by (rule strict_eq_refl)
    define u where "u = updatedData (heap s e) d now"
    define s' where "s' = snd (json_update s0 i d now)"
    define Q where "Q = (\<lambda>x. strict_eq (id_of (((heap s)(nxt s := u)) x)) i)"
    have idu: "id_of u = i"
      unfolding u_def using ide ok by (intro id_of_updatedData_kept) simp_all
    have liveu: "\<not> is_deleted u"
      unfolding u_def using e(3) ok by (intro live_updatedData) simp_all
    have h: "heap s' = (heap s)(nxt s := u)" and n: "nxt s' = Suc (nxt s)"
      and c: "cache s' = setToCache (cacheSize s) (cache s) i (nxt s)"
      and dt0: "data s' = (case findIndex Q (data s) of
                        None \<Rightarrow> data s | Some k \<Rightarrow> (data s)[k := nxt s])"
      using g Some by (simp_all add: s'_def u_def Q_def json_update_eq)
    have old: "heap s' r = heap s r" if "r \<in> set (data s)" for r
      using p(3)[OF that] by (simp add: h)
    have new: "heap s' (nxt s) = u" by (simp add: h)
    have Qold: "Q r = strict_eq (id_of (heap s r)) i" if "r \<in> set (data s)" for r
      using p(3)[OF that] by (simp add: Q_def)
    have "findIndex Q (data s) \<noteq> None"
      using e(1,2) Qold by (auto simp: findIndex_None)
    then obtain k where k: "findIndex Q (data s) = Some k" by auto
    then have kl: "k < length (data s)" and Qk: "Q (data s ! k)"
      using findIndex_Some by blast+
    have dt: "data s' = (data s)[k := nxt s]" using dt0 k by simp
    have idk: "id_of (heap s (data s ! k)) = i"
      using Qk Qold[of "data s ! k"] kl by (auto dest: strict_eq_imp_eq)
    have "cache_inv s'"
    proof (rule cache_invI)
      show "distinct (map fst (cache s'))" unfolding c by (rule setToCache_distinct[OF p(1)])
      show "r < nxt s'" if "r \<in> set (data s')" for r
      proof -
        have "r = nxt s \<or> r \<in> set (data s)"
          using that set_update_subset_insert[of "data s" k "nxt s"] unfolding dt by auto
        then show ?thesis using p(3) by (auto simp: n less_Suc_eq)
      qed
      fix q assume "q \<in> set (cache s')"
      then consider "q = (i, nxt s)" | "q \<in> set (cache s)" "fst q \<noteq> i"
        using setToCache_entries[OF p(1)] unfolding c by blast
      then show "List.find (\<lambda>r. strict_eq (id_of (heap s' r)) (fst q) \<and> \<not> is_deleted (heap s' r)) (data s')
            = Some (snd q)"
      proof cases
        case 1
        have "List.find (\<lambda>r. strict_eq (id_of (heap s' r)) i \<and> \<not> is_deleted (heap s' r))
                ((data s)[k := nxt s]) = Some (nxt s)"
        proof (rule find_update_at[OF k])
          show "Q x" if "x \<in> set (data s)"
            "strict_eq (id_of (heap s' x)) i \<and> \<not> is_deleted (heap s' x)" for x
            using that by (simp add: Qold old)
          show "strict_eq (id_of (heap s' (nxt s))) i \<and> \<not> is_deleted (heap s' (nxt s))"
            using ii liveu by (simp add: new idu)
        qed
        then show ?thesis using 1 by (simp add: dt)
      next
        case 2
        let ?P = "\<lambda>r. strict_eq (id_of (heap s' r)) (fst q) \<and> \<not> is_deleted (heap s' r)"
        have n1: "\<not> ?P (data s ! k)"
          using idk kl 2(2) by (auto simp: old dest: strict_eq_imp_eq)
        have n2: "\<not> ?P (nxt s)"
          using 2(2) by (auto simp: new idu dest: strict_eq_imp_eq)
        have "List.find ?P ((data s)[k := nxt s]) = List.find ?P (data s)"
          by (rule find_update_same[OF kl n1 n2])
        also have "\<dots> = List.find (\<lambda>r. strict_eq (id_of (heap s r)) (fst q) \<and> \<not> is_deleted (heap s r)) (data s)"
          by (rule find_cong_set) (simp add: old)
        finally show ?thesis using p(2)[OF 2(1)] by (simp add: dt)
      qed
    qed
    then show ?thesis by (simp add: s'_def)
  qed
qed

lemma cache_inv_delete:
  assumes inv0: "cache_inv s0"
  shows "cache_inv (snd (json_delete s0 i now))"
proof -
  obtain res s where g: "json_get s0 i = (res, s)" by fastforce
  note gi = cache_get_inv[OF inv0 g] and same = json_get_same[OF g]
  show ?thesis
  proof (cases res)
    case None
    then show ?thesis using g gi(1) by (simp add: json_delete_eq)
  next
    case (Some e)
    note inv = gi(1)
    note p = cache_inv_parts[OF inv]
    have fe: "List.find (\<lambda>r. strict_eq (id_of (heap s r)) i \<and> \<not> is_deleted (heap s r)) (data s) = Some e"
      using gi(2)[of e] Some same by simp
    then have e: "e \<in> set (data s)" "strict_eq (id_of (heap s e)) i"
      using find_SomeD[OF fe] by simp_all
    have ide: "id_of (heap s e) = i" using e(2) by (rule strict_eq_imp_eq)
    define m where "m = mark_deleted (heap s e) now"
    define s' where "s' = snd (json_delete s0 i now)"
    define Q where "Q = (\<lambda>x. strict_eq (id_of (((heap s)(e := m)) x)) i)"
    have h: "heap s' = (heap s)(e := m)" and n: "nxt s' = nxt s"
      and c: "cache s' = map_delete i (cache s)"
      and dt0: "data s' = (case findIndex Q (data s) of
                        None \<Rightarrow> data s | Some k \<Rightarrow> (data s)[k := e])"
      using g Some by (simp_all add: s'_def m_def Q_def json_delete_eq)
    have ids: "id_of (heap s' r) = id_of (heap s r)" for r
      by (simp add: h m_def id_of_mark)
    have same_test: "(strict_eq (id_of (heap s' r)) k \<and> \<not> is_deleted (heap s' r))
                   = (strict_eq (id_of (heap s r)) k \<and> \<not> is_deleted (heap s r))" if "k \<noteq> i" for r k
    proof (cases "r = e")
      case True
      have "\<not> strict_eq (id_of (heap s e)) k" using ide that by (auto dest: strict_eq_imp_eq)
      then show ?thesis using True by (simp add: ids)
    next
      case False
      then show ?thesis by (simp add: h)
    qed
    have "cache_inv s'"
    proof (rule cache_invI)
      show "distinct (map fst (cache s'))" unfolding c by (rule map_delete_distinct[OF p(1)])
      show "r < nxt s'" if "r \<in> set (data s')" for r
      proof -
        have "r \<in> set (data s)"
        proof (cases "findIndex Q (data s)")
          case None
          then show ?thesis using that dt0 by simp
        next
          case (Some k)
          then have "r = e \<or> r \<in> set (data s)"
            using that set_update_subset_insert[of "data s" k e] unfolding dt0 by auto
          then show ?thesis using e(1) by auto
        qed
        then show ?thesis using p(3) by (simp add: n)
      qed
      fix q assume "q \<in> set (cache s')"
      then have q: "q \<in> set (cache s)" "fst q \<noteq> i" by (simp_all add: c map_delete_entries)
      let ?P = "\<lambda>r. strict_eq (id_of (heap s r)) (fst q) \<and> \<not> is_deleted (heap s r)"
      have P': "(\<lambda>r. strict_eq (id_of (heap s' r)) (fst q) \<and> \<not> is_deleted (heap s' r)) = ?P"
        using same_test[OF q(2)] by auto
      have "List.find ?P (data s') = List.find ?P (data s)"
      proof (cases "findIndex Q (data s)")
        case None
        then show ?thesis using dt0 by simp
      next
        case (Some k)
        then have kl: "k < length (data s)" and Qk: "Q (data s ! k)"
          using findIndex_Some by blast+
        have "id_of (heap s (data s ! k)) = i"
          using Qk ids[of "data s ! k"] by (auto simp: Q_def h dest: strict_eq_imp_eq)
        then have n1: "\<not> ?P (data s ! k)" using q(2) by (auto dest: strict_eq_imp_eq)
        have n2: "\<not> ?P e" using ide q(2) by (auto dest: strict_eq_imp_eq)
        show ?thesis using Some dt0 find_update_same[OF kl n1 n2] by simp
      qed
      then show "List.find (\<lambda>r. strict_eq (id_of (heap s' r)) (fst q) \<and> \<not> is_deleted (heap s' r)) (data s')
            = Some (snd q)"
        unfolding P' using p(2)[OF q(1)] by simp
    qed
    then show ?thesis by (simp add: s'_def)
  qed
qed

lemma cache_inv_loaded:
  assumes "cache s' = []" "data s' = [n..<n + k]" "nxt s' = n + k"
  shows "cache_inv s'"
  by (rule cache_invI) (use assms in auto)

lemma cache_inv_compact: "cache_inv (snd (json_compact s))"
  by (rule cache_inv_loaded[where n = "nxt s"])
     (simp_all add: json_compact_def Let_def load_same load_data load_nxt clearCache_def)

lemma cache_inv_restore: "cache_inv s \<Longrightarrow> cache_inv (snd (json_restore s bfile))"
proof (cases bfile)
  case None
  assume "cache_inv s"
  then show ?thesis using None by (simp add: json_restore_def)
next
  case (Some recs)
  show ?thesis
    unfolding Some
    by (rule cache_inv_loaded[where n = "nxt s"])
       (simp_all add: json_restore_def Let_def saveData_def load_same load_data load_nxt clearCache_def)
qed

lemma cache_inv_createIndex: "cache_inv s \<Longrightarrow> cache_inv (json_createIndex s f)"
  by (simp add: json_createIndex_def cache_inv_def json_coherent_def)

lemma cache_inv_step: "cache_inv s \<Longrightarrow> cache_ok s c \<Longrightarrow> cache_inv (json_step s c)"
proof (cases c)
  case (Get i)
  assume "cache_inv s"
  then show ?thesis using Get cache_get_inv(1)[of s i "fst (json_get s i)" "snd (json_get s i)"] by simp
qed (simp_all add: cache_inv_insert cache_inv_update cache_inv_delete cache_inv_compact
       cache_inv_restore cache_inv_createIndex)

lemma cache_inv_run: "cache_inv s \<Longrightarrow> cache_ok_run s cs \<Longrightarrow> cache_inv (json_run s cs)"
  by (induction cs arbitrary: s) (simp_all add: cache_inv_step)

lemma cache_inv_new: "cache_inv (json_new n dfile wfile)"
  by (simp add: cache_inv_def json_coherent_def json_new_def)

lemma cache_inv_coherent: "cache_inv s \<Longrightarrow> json_coherent s"
  by (simp add: cache_inv_def)

text \<open>
  Claim C10, as amended.  File-backed engine, started on a new collection: when every
  \<open>insert\<close> stores a primitive id that no live record has, every \<open>update(id, data)\<close>
  leaves the id as it is (\<open>data\<close> does not name \<open>id\<close>, or gives it the value \<open>id\<close>),
  and neither gives \<open>_deleted\<close> a truthy value, then after every sequence of \<open>insert\<close>,
  \<open>update\<close>, \<open>delete\<close>, \<open>get\<close>, \<open>createIndex\<close>, \<open>compact\<close> and \<open>restore\<close> calls every
  entry of the cache maps its id to the live record that \<open>get\<close> finds for that id when it
  misses the cache.  In-memory engine: the same, for a caller that gives \<open>_deleted\<close> no
  truthy value.  In the file-backed engine \<open>insert\<close> and \<open>update\<close> leave the record they
  return in the cache under its id, \<open>delete\<close> leaves no entry under the id, and \<open>compact\<close>
  and \<open>restore\<close> leave the cache empty.
\<close>

theorem cache_coherence:
  "(cache_ok_run (json_new n None None) cs \<longrightarrow>
      json_coherent (json_run (json_new n None None) cs))
   \<and> (list_all mem_ok cs \<longrightarrow> mem_coherent (mem_run (mem_new n) cs))
   \<and> map_of (cache (snd (json_insert s d uid now))) (id_of (stamp_insert d uid now)) = Some (nxt s)
   \<and> (\<forall>r s'. json_update s i d now = (Inr r, s') \<longrightarrow> map_of (cache s') i = Some r)
   \<and> map_of (cache (snd (json_delete s i now))) i = None
   \<and> cache (snd (json_compact s)) = []
   \<and> cache (snd (json_restore s (Some recs))) = []"
proof (intro conjI impI allI)
  assume "cache_ok_run (json_new n None None) cs"
  then show "json_coherent (json_run (json_new n None None) cs)"
    by (simp add: cache_inv_coherent cache_inv_run cache_inv_new)
next
  assume "list_all mem_ok cs"
  then show "mem_coherent (mem_run (mem_new n) cs)"
    by (simp add: mem_inv_coherent mem_inv_run mem_inv_new)
next
  show "map_of (cache (snd (json_insert s d uid now))) (id_of (stamp_insert d uid now)) = Some (nxt s)"
    by (simp add: json_insert_eq map_of_setToCache)
next
  fix r s' assume "json_update s i d now = (Inr r, s')"
  then show "map_of (cache s') i = Some r"
    by (auto simp: json_update_eq map_of_setToCache split: prod.splits option.splits)
next
  show "map_of (cache (snd (json_delete s i now))) i = None" by (rule cache_after_delete)
next
  show "cache (snd (json_compact s)) = []" by (simp add: json_compact_def Let_def clearCache_def)
next
  show "cache (snd (json_restore s (Some recs))) = []"
    by (simp add: json_restore_def Let_def saveData_def load_same clearCache_def)
qed

theorem cache_coherence_witness:
  "cache_ok_run (json_new 0 None None) coherent_calls
   \<and> list_all mem_ok coherent_calls
   \<and> json_coherent (json_run (json_new 0 None None) coherent_calls)
   \<and> mem_coherent (mem_run (mem_new 0) coherent_calls)
   \<and> cache (json_run (json_new 0 None None) coherent_calls) = [(JStr ''a'', 3), (JStr ''u2'', 2)]"
proof -
  have ok: "cache_ok_run (json_new 0 None None) coherent_calls"
    by (simp add: coherent_calls_def run_eval is_primitive_def)
  have c: "cache (json_run (json_new 0 None None) coherent_calls)
             = [(JStr ''a'', 3), (JStr ''u2'', 2)]"
    by (simp add: coherent_calls_def run_eval)
  have mok: "list_all mem_ok coherent_calls"
    by (simp add: coherent_calls_def is_deleted_def obj_get_def object_prototype_def spread_def)
  show ?thesis
    using ok c mok cache_coherence[where n = 0 and cs = coherent_calls]
    by blast
qed

text \<open>
  After \<open>update("a", {id: "b"})\<close>, \<open>get("b")\<close> and \<open>delete("b")\<close> the collection has no
  live record, the cache still holds the record under \<open>a\<close>, and \<open>get("a")\<close> returns it,
  deleted.
\<close>

theorem cache_coherence_counterexample:
  "cache (json_run (json_new 0 None None)
     [Insert [(''id'', JStr ''a'')] ''u1'' ''t1'',
      Update (JStr ''a'') [(''id'', JStr ''b'')] ''t2'',
      Get (JStr ''b''),
      Delete (JStr ''b'') ''t3'']) = [(JStr ''a'', 1)]
   \<and> json_live (json_run (json_new 0 None None)
     [Insert [(''id'', JStr ''a'')] ''u1'' ''t1'',
      Update (JStr ''a'') [(''id'', JStr ''b'')] ''t2'',
      Get (JStr ''b''),
      Delete (JStr ''b'') ''t3'']) = []
   \<and> fst (json_get (json_run (json_new 0 None None)
     [Insert [(''id'', JStr ''a'')] ''u1'' ''t1'',
      Update (JStr ''a'') [(''id'', JStr ''b'')] ''t2'',
      Get (JStr ''b''),
      Delete (JStr ''b'') ''t3'']) (JStr ''a'')) = Some 1
   \<and> heap (json_run (json_new 0 None None)
     [Insert [(''id'', JStr ''a'')] ''u1'' ''t1'',
      Update (JStr ''a'') [(''id'', JStr ''b'')] ''t2'',
      Get (JStr ''b''),
      Delete (JStr ''b'') ''t3'']) 1
     = [(''id'', JStr ''b''), (''_created'', JStr ''t1''), (''_updated'', JStr ''t2''),
        (''_deleted'', JBool True), (''_deleted_at'', JStr ''t3'')]"
  by (simp add: run_eval)

section \<open>Recovery from the write-ahead log\<close>

text \<open>
  Claim C1, at two inserts into a new collection.  Run without interruption, the calls
  \<open>insert({id: "a"})\<close> and \<open>insert({id: "b"})\<close> leave the live records \<open>a\<close> and \<open>b\<close>.  When
  the process is killed during the second call, after the operation is appended to the
  log, the data file holds \<open>a\<close> and the log still holds both operations, because no call
  but \<open>compact\<close> removes the log once the data file is saved; \<open>init\<close> replays both onto
  the loaded data and the collection holds \<open>a\<close> twice.  When the process is killed during
  both calls, the first \<open>init\<close> removes the log and saves no data file, so the second
  \<open>init\<close> finds only the second operation and \<open>a\<close> is lost.
\<close>

theorem crash_recovery_two_inserts:
  "json_live (json_run (json_new 0 None None)
      [Insert [(''id'', JStr ''a'')] ''u1'' ''t1'', Insert [(''id'', JStr ''b'')] ''u2'' ''t2''])
     = [[(''id'', JStr ''a''), (''_created'', JStr ''t1''), (''_updated'', JStr ''t1'')],
        [(''id'', JStr ''b''), (''_created'', JStr ''t2''), (''_updated'', JStr ''t2'')]]
   \<and> json_live (killed_in_last (json_new 0 None None)
      [Insert [(''id'', JStr ''a'')] ''u1'' ''t1'', Insert [(''id'', JStr ''b'')] ''u2'' ''t2'']
      (\<lambda>k. ''t9''))
     = [[(''id'', JStr ''a''), (''_created'', JStr ''t1''), (''_updated'', JStr ''t1'')],
        [(''id'', JStr ''a''), (''_created'', JStr ''t1''), (''_updated'', JStr ''t1'')],
        [(''id'', JStr ''b''), (''_created'', JStr ''t2''), (''_updated'', JStr ''t2'')]]
   \<and> json_live (killed_in_each (json_new 0 None None)
      [Insert [(''id'', JStr ''a'')] ''u1'' ''t1'', Insert [(''id'', JStr ''b'')] ''u2'' ''t2'']
      (\<lambda>k. ''t9''))
     = [[(''id'', JStr ''b''), (''_created'', JStr ''t2''), (''_updated'', JStr ''t2'')]]"
  by (simp add: run_eval truthy.simps)

section \<open>Backup and restore\<close>

lemma json_rt_props_keys: "fst ` set (json_rt_props ob) \<subseteq> fst ` set ob"
  by (induction ob) auto

lemma json_rt_props_proper: "proper ob \<Longrightarrow> proper (json_rt_props ob)"
  unfolding proper_def
proof (induction ob)
  case Nil
  then show ?case by simp
next
  case (Cons p ps)
  then show ?case using json_rt_props_keys[of ps] by auto
qed

lemma obj_get_json_rt_props:
  assumes "proper ob" and k: "k \<notin> set object_prototype"
  shows "obj_get (json_rt_props ob) k = json_rt (obj_get ob k)"
  using assms(1) unfolding proper_def
proof (induction ob)
  case Nil
  then show ?case using k by (simp add: obj_get_def)
next
  case (Cons p ps)
  show ?case
  proof (cases "fst p = k")
    case True
    then have "k \<notin> fst ` set (json_rt_props ps)"
      using Cons.prems json_rt_props_keys[of ps] by auto
    then have "obj_get (json_rt_props ps) k = JUndef" using k by (rule obj_get_absent)
    then show ?thesis using True by (simp add: obj_get_Cons)
  next
    case False
    have "obj_get (json_rt_props ps) k = json_rt (obj_get ps k)"
      using Cons by simp
    then show ?thesis using False by (simp add: obj_get_Cons)
  qed
qed

lemma truthy_json_rt: "\<not> is_function v \<Longrightarrow> truthy (json_rt v) = truthy v"
  by (cases v) simp_all

lemma json_rt_primitive: "is_primitive v \<Longrightarrow> json_rt v = v"
  by (cases v) (simp_all add: is_primitive_def)

lemma is_deleted_json_rt: "storable ob \<Longrightarrow> is_deleted (json_rt_props ob) = is_deleted ob"
  by (simp add: storable_def is_deleted_def obj_get_json_rt_props truthy_json_rt own_names)

lemma id_of_json_rt:
  "proper ob \<Longrightarrow> is_primitive (id_of ob) \<Longrightarrow> id_of (json_rt_props ob) = id_of ob"
  by (simp add: id_of_def obj_get_json_rt_props json_rt_primitive own_names)

lemma json_restore_live:
  "json_live (snd (json_restore t (Some recs))) = filter (\<lambda>ob. \<not> is_deleted ob) recs"
proof -
  define s1 where "s1 = t\<lparr>data := [], cache := clearCache (cache t)\<rparr>"
  have "map (heap (load recs s1)) (data (load recs s1)) = recs"
    using load_values[of recs s1] by (simp add: load_data s1_def)
  then show ?thesis
    by (simp add: json_restore_def json_live_def saveData_def Let_def s1_def)
qed

lemma json_backup_restore:
  assumes saved: "json_saved s" and pr: "\<And>r. r \<in> set (data s) \<Longrightarrow> storable (heap s r)"
  shows "json_backup s \<noteq> None"
    and "json_live (snd (json_restore t (json_backup s))) = map json_rt_props (json_live s)"
proof -
  have b: "json_backup s = Some (map json_rt_props (map (heap s) (data s)))"
    using saved by (simp add: json_saved_def json_backup_def)
  then show "json_backup s \<noteq> None" by simp
  have "filter (\<lambda>ob. \<not> is_deleted ob) (map json_rt_props (map (heap s) (data s)))
        = map json_rt_props (filter (\<lambda>ob. \<not> is_deleted (json_rt_props ob)) (map (heap s) (data s)))"
    by (simp add: filter_map comp_def)
  also have "filter (\<lambda>ob. \<not> is_deleted (json_rt_props ob)) (map (heap s) (data s))
        = filter (\<lambda>ob. \<not> is_deleted ob) (map (heap s) (data s))"
    by (rule filter_cong) (auto simp: is_deleted_json_rt pr)
  finally show "json_live (snd (json_restore t (json_backup s))) = map json_rt_props (json_live s)"
    unfolding b json_restore_live by (simp add: json_live_def)
qed

lemma mem_store_recs:
  assumes "distinct (map fst ps)" "fst ` set ps \<inter> fst ` set (mdata s) = {}"
    "\<And>p. p \<in> set (mdata s) \<Longrightarrow> snd p < nxt s"
  shows "mem_recs (mem_store ps s) = mem_recs s @ ps"
  using assms
proof (induction ps arbitrary: s)
  case Nil
  then show ?case by simp
next
  case (Cons p ps)
  define s' where "s' = s\<lparr>heap := (heap s)(nxt s := snd p), nxt := Suc (nxt s),
          mdata := map_set (fst p) (nxt s) (mdata s)\<rparr>"
  have fresh: "fst p \<notin> fst ` set (mdata s)" using Cons.prems(2) by auto
  have md: "mdata s' = mdata s @ [(fst p, nxt s)]"
    by (simp add: s'_def map_set_fresh[OF fresh])
  have old: "map (\<lambda>q. (fst q, heap s' (snd q))) (mdata s) = mem_recs s"
    unfolding mem_recs_def
  proof (rule map_cong[OF refl])
    fix q assume "q \<in> set (mdata s)"
    then have "snd q \<noteq> nxt s" using Cons.prems(3)[of q] by simp
    then show "(fst q, heap s' (snd q)) = (fst q, heap s (snd q))" by (simp add: s'_def)
  qed
  have recs: "mem_recs s' = mem_recs s @ [p]"
    unfolding mem_recs_def[of s'] md using old by (simp add: s'_def)
  have 1: "distinct (map fst ps)" using Cons.prems(1) by simp
  have 2: "fst ` set ps \<inter> fst ` set (mdata s') = {}"
    using Cons.prems(1,2) by (auto simp: md)
  have 3: "\<And>q. q \<in> set (mdata s') \<Longrightarrow> snd q < nxt s'"
  proof -
    fix q assume "q \<in> set (mdata s')"
    then have "q \<in> set (mdata s) \<or> q = (fst p, nxt s)" by (auto simp: md)
    then show "snd q < nxt s'" using Cons.prems(3)[of q] by (auto simp: s'_def)
  qed
  have "mem_store (p # ps) s = mem_store ps s'" by (simp add: s'_def)
  then show ?case using Cons.IH[OF 1 2 3] recs by simp
qed

lemma map_set_same: "map_of m k = Some v \<Longrightarrow> map_set k v m = m"
  by (induction m) (auto split: if_splits)

lemma without_map_set_in: "k \<in> set ks \<Longrightarrow> without ks (map_set k v ob) = without ks ob"
  unfolding without_def by (induction ob) auto

lemma without_proper: "proper ob \<Longrightarrow> proper (without ks ob)"
  by (simp add: proper_def without_def distinct_map_filter)

lemma without_keys: "fst ` set (without ks ob) = fst ` set ob - set ks"
  by (auto simp: without_def)

lemma without_none: "fst ` set ob \<inter> set ks = {} \<Longrightarrow> without ks ob = ob"
  unfolding without_def by (rule filter_True) auto

lemma restored_record:
  assumes id: "truthy (id_of rcd)" and nosys: "fst ` set rcd \<inter> set system_fields = {}"
  shows "fst (restored rcd u now) = id_of rcd"
    and "without system_fields (snd (restored rcd u now)) = rcd"
    and "obj_get (snd (restored rcd u now)) ''_created'' = JStr now"
    and "obj_get (snd (restored rcd u now)) ''_updated'' = JStr now"
    and "\<not> is_deleted (snd (restored rcd u now))"
proof -
  have "map_of rcd ''id'' = Some (id_of rcd)"
    using id by (cases "map_of rcd ''id''") (simp_all add: id_of_def obj_get_def own_names)
  then have same: "map_set ''id'' (id_of rcd) rcd = rcd" by (rule map_set_same)
  have snd_eq: "snd (restored rcd u now)
      = map_set ''_updated'' (JStr now) (map_set ''_created'' (JStr now) rcd)"
    using id by (simp add: restored_def Let_def same)
  show "fst (restored rcd u now) = id_of rcd" using id by (simp add: restored_def Let_def)
  have "without system_fields (snd (restored rcd u now)) = without system_fields rcd"
    unfolding snd_eq by (simp add: without_map_set_in system_fields_def)
  then show "without system_fields (snd (restored rcd u now)) = rcd"
    using without_none[OF nosys] by simp
  show "obj_get (snd (restored rcd u now)) ''_created'' = JStr now"
    unfolding snd_eq by (simp add: obj_get_map_set)
  show "obj_get (snd (restored rcd u now)) ''_updated'' = JStr now"
    unfolding snd_eq by (simp add: obj_get_map_set)
  have "''_deleted'' \<notin> fst ` set rcd" using nosys by (auto simp: system_fields_def)
  then have "obj_get rcd ''_deleted'' = JUndef" by (rule obj_get_absent) (rule own_names)
  then show "\<not> is_deleted (snd (restored rcd u now))"
    unfolding snd_eq by (simp add: is_deleted_def obj_get_map_set)
qed

lemma backup_record:
  assumes "proper ob" "is_primitive (id_of ob)"
  shows "id_of (json_rt_props (without system_fields ob)) = id_of ob"
    and "fst ` set (json_rt_props (without system_fields ob)) \<inter> set system_fields = {}"
proof -
  have p: "proper (without system_fields ob)" using assms(1) by (rule without_proper)
  have i: "id_of (without system_fields ob) = id_of ob"
    by (rule id_of_without) (simp add: system_fields_def)
  show "id_of (json_rt_props (without system_fields ob)) = id_of ob"
    using id_of_json_rt[OF p] assms(2) i by simp
  show "fst ` set (json_rt_props (without system_fields ob)) \<inter> set system_fields = {}"
    using json_rt_props_keys[of "without system_fields ob"] without_keys[of system_fields ob]
    by auto
qed

lemma mem_backup_live:
  "mem_backup s = map (\<lambda>ob. json_rt_props (without system_fields ob)) (map snd (mem_live s))"
  by (simp add: mem_backup_def mem_live_def mem_recs_def filter_map comp_def)

lemma mem_restore_recs:
  assumes "distinct (map (\<lambda>k. fst (restored (recs ! k) (uids k) (clock k))) [0..<length recs])"
  shows "mem_recs (snd (mem_restore t (Some recs) uids clock))
         = map (\<lambda>k. restored (recs ! k) (uids k) (clock k)) [0..<length recs]"
proof -
  define s1 where "s1 = t\<lparr>mdata := [], cache := clearCache (cache t)\<rparr>"
  define ps where "ps = map (\<lambda>k. restored (recs ! k) (uids k) (clock k)) [0..<length recs]"
  have d: "distinct (map fst ps)" using assms by (simp add: ps_def comp_def)
  have "mem_recs (mem_store ps s1) = mem_recs s1 @ ps"
    by (rule mem_store_recs[OF d]) (simp_all add: s1_def)
  then have "mem_recs (mem_store ps s1) = ps" by (simp add: mem_recs_def s1_def)
  moreover have "mem_recs (snd (mem_restore t (Some recs) uids clock)) = mem_recs (mem_store ps s1)"
    by (simp add: mem_restore_def Let_def mem_recs_def ps_def s1_def)
  ultimately show ?thesis by (simp add: ps_def)
qed

lemma mem_backup_restore:
  assumes r: "restorable (map snd (mem_live s))"
  shows "mem_live (snd (mem_restore t (Some (mem_backup s)) uids clock))
         = map (\<lambda>k. restored (json_rt_props (without system_fields (snd (mem_live s ! k))))
                       (uids k) (clock k)) [0..<length (mem_live s)]"
    and "map fst (mem_live (snd (mem_restore t (Some (mem_backup s)) uids clock)))
         = map (\<lambda>p. id_of (snd p)) (mem_live s)"
    and "map (\<lambda>p. without system_fields (snd p))
           (mem_live (snd (mem_restore t (Some (mem_backup s)) uids clock)))
         = map (\<lambda>p. json_rt_props (without system_fields (snd p))) (mem_live s)"
    and "map (\<lambda>p. (obj_get (snd p) ''_created'', obj_get (snd p) ''_updated''))
           (mem_live (snd (mem_restore t (Some (mem_backup s)) uids clock)))
         = map (\<lambda>k. (JStr (clock k), JStr (clock k))) [0..<length (mem_live s)]"
proof -
  define L where "L = map snd (mem_live s)"
  define B where "B = mem_backup s"
  define ps where "ps = map (\<lambda>k. restored (B ! k) (uids k) (clock k)) [0..<length B]"
  define t' where "t' = snd (mem_restore t (Some B) uids clock)"
  have B: "B = map (\<lambda>ob. json_rt_props (without system_fields ob)) L"
    by (simp add: B_def L_def mem_backup_live)
  have len: "length B = length (mem_live s)" "length L = length (mem_live s)"
    by (simp_all add: B L_def)
  have Lk: "\<And>k. k < length (mem_live s) \<Longrightarrow> L ! k = snd (mem_live s ! k)"
    by (simp add: L_def)
  have Bk: "\<And>k. k < length (mem_live s) \<Longrightarrow>
      B ! k = json_rt_props (without system_fields (snd (mem_live s ! k)))"
    by (simp add: B L_def)
  have ok: "\<And>k. k < length (mem_live s) \<Longrightarrow>
      proper (L ! k) \<and> truthy (id_of (L ! k)) \<and> is_primitive (id_of (L ! k))"
    using r unfolding restorable_def L_def[symmetric] list_all_length len by simp
  have idB: "\<And>k. k < length (mem_live s) \<Longrightarrow> id_of (B ! k) = id_of (L ! k)"
    using backup_record(1) ok by (simp add: Bk Lk)
  have nosys: "\<And>k. k < length (mem_live s) \<Longrightarrow> fst ` set (B ! k) \<inter> set system_fields = {}"
    using backup_record(2) ok by (simp add: Bk Lk)
  have tr: "\<And>k. k < length (mem_live s) \<Longrightarrow> truthy (id_of (B ! k))"
    using idB ok by simp
  have fsts: "map (\<lambda>k. fst (restored (B ! k) (uids k) (clock k))) [0..<length B] = map id_of L"
    by (rule nth_equalityI) (simp_all add: len restored_record(1)[OF tr nosys] idB)
  have "distinct (map id_of L)" using r by (simp add: restorable_def L_def)
  then have "distinct (map (\<lambda>k. fst (restored (B ! k) (uids k) (clock k))) [0..<length B])"
    using fsts by simp
  then have recs: "mem_recs t' = ps" unfolding t'_def ps_def by (rule mem_restore_recs)
  have "filter (\<lambda>p. \<not> is_deleted (snd p)) ps = ps"
  proof (rule filter_True, rule ballI)
    fix p assume "p \<in> set ps"
    then obtain k where "k < length (mem_live s)" "p = restored (B ! k) (uids k) (clock k)"
      by (auto simp: ps_def len)
    then show "\<not> is_deleted (snd p)" using restored_record(5)[OF tr nosys] by simp
  qed
  then have live: "mem_live t' = ps" by (simp add: mem_live_def recs)
  show "mem_live (snd (mem_restore t (Some (mem_backup s)) uids clock))
         = map (\<lambda>k. restored (json_rt_props (without system_fields (snd (mem_live s ! k))))
                       (uids k) (clock k)) [0..<length (mem_live s)]"
    unfolding B_def[symmetric] live[unfolded t'_def] ps_def
    by (rule nth_equalityI) (simp_all add: len Bk)
  show "map fst (mem_live (snd (mem_restore t (Some (mem_backup s)) uids clock)))
         = map (\<lambda>p. id_of (snd p)) (mem_live s)"
    unfolding B_def[symmetric] live[unfolded t'_def] ps_def
    using fsts by (simp add: comp_def L_def)
  show "map (\<lambda>p. without system_fields (snd p))
           (mem_live (snd (mem_restore t (Some (mem_backup s)) uids clock)))
         = map (\<lambda>p. json_rt_props (without system_fields (snd p))) (mem_live s)"
    unfolding B_def[symmetric] live[unfolded t'_def] ps_def
    by (rule nth_equalityI) (simp_all add: len restored_record(2)[OF tr nosys] Bk[symmetric])
  show "map (\<lambda>p. (obj_get (snd p) ''_created'', obj_get (snd p) ''_updated''))
           (mem_live (snd (mem_restore t (Some (mem_backup s)) uids clock)))
         = map (\<lambda>k. (JStr (clock k), JStr (clock k))) [0..<length (mem_live s)]"
    unfolding B_def[symmetric] live[unfolded t'_def] ps_def
    by (rule nth_equalityI) (simp_all add: len restored_record(3,4)[OF tr nosys])
qed

text \<open>
  Claim C9, as amended.  File-backed engine: when the data file holds the data array as
  last saved and every stored record is an object whose tombstone is not a function,
  \<open>backup\<close> writes a backup file, and \<open>restore\<close> from that file, whatever the collection
  holds by then, leaves as live records the live records of the time of the backup, as
  JSON writes and reads them; they are the same records when JSON changes none of them.
  A collection that was never written to has no data file: \<open>backup\<close> writes no file, and
  \<open>restore\<close> leaves the emptied collection empty, as it was.  In-memory engine: when the
  live records are objects with truthy primitive ids, no two the same, \<open>restore\<close> from what
  \<open>backup\<close> wrote leaves one live record for each live record of the time of the backup,
  in order, under its id, and equal to it, as JSON writes and reads it, in every field
  other than \<open>_created\<close>, \<open>_updated\<close>, \<open>_deleted\<close> and \<open>_deleted_at\<close>; \<open>_created\<close> and
  \<open>_updated\<close> are the time of the restore.
\<close>

theorem backup_restore:
  "(json_saved js \<and> list_all (\<lambda>r. storable (heap js r)) (data js) \<longrightarrow>
      json_backup js \<noteq> None
      \<and> json_live (snd (json_restore jt (json_backup js))) = map json_rt_props (json_live js)
      \<and> (list_all (\<lambda>ob. json_rt_props ob = ob) (json_live js) \<longrightarrow>
           json_live (snd (json_restore jt (json_backup js))) = json_live js))
   \<and> (dataFile js = None \<and> data js = [] \<and> json_live jt = [] \<longrightarrow>
      json_backup js = None
      \<and> json_live (snd (json_restore jt (json_backup js))) = json_live js)
   \<and> (restorable (map snd (mem_live ms)) \<longrightarrow>
      map fst (mem_live (snd (mem_restore mt (Some (mem_backup ms)) uids clock)))
          = map (\<lambda>p. id_of (snd p)) (mem_live ms)
      \<and> map (\<lambda>p. without system_fields (snd p))
            (mem_live (snd (mem_restore mt (Some (mem_backup ms)) uids clock)))
          = map (\<lambda>p. json_rt_props (without system_fields (snd p))) (mem_live ms)
      \<and> map (\<lambda>p. (obj_get (snd p) ''_created'', obj_get (snd p) ''_updated''))
            (mem_live (snd (mem_restore mt (Some (mem_backup ms)) uids clock)))
          = map (\<lambda>k. (JStr (clock k), JStr (clock k))) [0..<length (mem_live ms)])"
proof (intro conjI impI)
  assume h: "json_saved js \<and> list_all (\<lambda>r. storable (heap js r)) (data js)"
  then have saved: "json_saved js" and pr: "\<And>r. r \<in> set (data js) \<Longrightarrow> storable (heap js r)"
    by (simp_all add: list_all_iff)
  show "json_backup js \<noteq> None" using saved pr by (rule json_backup_restore(1))
  show live: "json_live (snd (json_restore jt (json_backup js))) = map json_rt_props (json_live js)"
    using saved pr by (rule json_backup_restore(2))
  assume "list_all (\<lambda>ob. json_rt_props ob = ob) (json_live js)"
  then have "map json_rt_props (json_live js) = json_live js"
    by (simp add: list_all_iff map_idI)
  then show "json_live (snd (json_restore jt (json_backup js))) = json_live js"
    using live by simp
next
  assume n: "dataFile js = None \<and> data js = [] \<and> json_live jt = []"
  then show "json_backup js = None" by (simp add: json_backup_def)
  then show "json_live (snd (json_restore jt (json_backup js))) = json_live js"
    using n by (simp add: json_restore_def json_live_def)
next
  assume r: "restorable (map snd (mem_live ms))"
  show "map fst (mem_live (snd (mem_restore mt (Some (mem_backup ms)) uids clock)))
          = map (\<lambda>p. id_of (snd p)) (mem_live ms)"
    using r by (rule mem_backup_restore(2))
  show "map (\<lambda>p. without system_fields (snd p))
            (mem_live (snd (mem_restore mt (Some (mem_backup ms)) uids clock)))
          = map (\<lambda>p. json_rt_props (without system_fields (snd p))) (mem_live ms)"
    using r by (rule mem_backup_restore(3))
  show "map (\<lambda>p. (obj_get (snd p) ''_created'', obj_get (snd p) ''_updated''))
            (mem_live (snd (mem_restore mt (Some (mem_backup ms)) uids clock)))
          = map (\<lambda>k. (JStr (clock k), JStr (clock k))) [0..<length (mem_live ms)]"
    using r by (rule mem_backup_restore(4))
qed

lemmas backup_eval =
  two_records_def emptied_def json_before_def json_emptied_def mem_before_def mem_emptied_def
  json_backup_def mem_backup_def restored_def system_fields_def json_saved_def proper_def
  storable_def restorable_def is_primitive_def

theorem backup_restore_witness:
  "json_saved json_before \<and> list_all (\<lambda>r. storable (heap json_before r)) (data json_before)
   \<and> list_all (\<lambda>ob. json_rt_props ob = ob) (json_live json_before)
   \<and> restorable (map snd (mem_live mem_before))
   \<and> json_live json_emptied = [] \<and> mem_live mem_emptied = []
   \<and> json_live (snd (json_restore json_emptied (json_backup json_before)))
       = [[(''id'', JStr ''a''), (''x'', JNum 1), (''_created'', JStr ''t1''),
           (''_updated'', JStr ''t1'')]]
   \<and> dataFile (json_new 0 None None) = None \<and> data (json_new 0 None None) = []
   \<and> json_live (snd (json_restore json_emptied (json_backup (json_new 0 None None)))) = []
   \<and> map fst (mem_live (snd (mem_restore mem_emptied (Some (mem_backup mem_before))
                                (\<lambda>k. ''u9'') (\<lambda>k. ''t5''))))
       = [JStr ''a'']
   \<and> map (\<lambda>p. without system_fields (snd p))
         (mem_live (snd (mem_restore mem_emptied (Some (mem_backup mem_before))
                           (\<lambda>k. ''u9'') (\<lambda>k. ''t5''))))
       = [[(''id'', JStr ''a''), (''x'', JNum 1)]]
   \<and> map (\<lambda>p. (obj_get (snd p) ''_created'', obj_get (snd p) ''_updated''))
         (mem_live (snd (mem_restore mem_emptied (Some (mem_backup mem_before))
                           (\<lambda>k. ''u9'') (\<lambda>k. ''t5''))))
       = [(JStr ''t5'', JStr ''t5'')]"
proof -
  have jl: "json_live json_before
      = [[(''id'', JStr ''a''), (''x'', JNum 1), (''_created'', JStr ''t1''),
          (''_updated'', JStr ''t1'')]]"
    by (simp add: backup_eval run_eval)
  have ml: "mem_live mem_before
      = [(JStr ''a'', [(''id'', JStr ''a''), (''x'', JNum 1), (''_created'', JStr ''t1''),
          (''_updated'', JStr ''t1'')])]"
    by (simp add: backup_eval run_eval)
  have h1: "json_saved json_before" by (simp add: backup_eval run_eval)
  have h2: "list_all (\<lambda>r. storable (heap json_before r)) (data json_before)"
    by (simp add: backup_eval run_eval)
  have h3: "list_all (\<lambda>ob. json_rt_props ob = ob) (json_live json_before)"
    unfolding jl by simp
  have h4: "restorable (map snd (mem_live mem_before))"
    unfolding ml by (simp add: backup_eval id_of_def obj_get_def)
  have e1: "json_live json_emptied = []" by (simp add: backup_eval run_eval)
  have e2: "mem_live mem_emptied = []" by (simp add: backup_eval run_eval)
  note c = backup_restore[where js = json_before and jt = json_emptied and ms = mem_before
      and mt = mem_emptied and uids = "\<lambda>k. ''u9''" and clock = "\<lambda>k. ''t5''"]
  have c1: "json_live (snd (json_restore json_emptied (json_backup json_before)))
      = json_live json_before"
    using c h1 h2 h3 by blast
  have n1: "dataFile (json_new 0 None None) = None" "data (json_new 0 None None) = []"
    "json_live (json_new 0 None None) = []"
    by (simp_all add: json_new_def json_live_def)
  have "json_live (snd (json_restore json_emptied (json_backup (json_new 0 None None))))
          = json_live (json_new 0 None None)"
    using backup_restore[where js = "json_new 0 None None" and jt = json_emptied
        and ms = mem_before and mt = mem_emptied and uids = "\<lambda>k. ''u9''" and clock = "\<lambda>k. ''t5''"]
      n1(1,2) e1 by blast
  then have c0: "json_live (snd (json_restore json_emptied (json_backup (json_new 0 None None)))) = []"
    using n1(3) by simp
  have c2: "map fst (mem_live (snd (mem_restore mem_emptied (Some (mem_backup mem_before))
                                (\<lambda>k. ''u9'') (\<lambda>k. ''t5''))))
       = map (\<lambda>p. id_of (snd p)) (mem_live mem_before)"
    using c h4 by blast
  have c3: "map (\<lambda>p. without system_fields (snd p))
         (mem_live (snd (mem_restore mem_emptied (Some (mem_backup mem_before))
                           (\<lambda>k. ''u9'') (\<lambda>k. ''t5''))))
       = map (\<lambda>p. json_rt_props (without system_fields (snd p))) (mem_live mem_before)"
    using c h4 by blast
  have c4: "map (\<lambda>p. (obj_get (snd p) ''_created'', obj_get (snd p) ''_updated''))
         (mem_live (snd (mem_restore mem_emptied (Some (mem_backup mem_before))
                           (\<lambda>k. ''u9'') (\<lambda>k. ''t5''))))
       = map (\<lambda>k. (JStr ''t5'', JStr ''t5'')) [0..<length (mem_live mem_before)]"
    using c h4 by blast
  show ?thesis
    unfolding c0 c1 c2 c3 c4 using h1 h2 h3 h4 e1 e2 n1
    by (simp add: jl ml id_of_def obj_get_def without_def system_fields_def)
qed

text \<open>
  In the in-memory engine a record inserted at \<open>t1\<close> and restored at \<open>t5\<close> comes back with
  \<open>_created\<close> and \<open>_updated\<close> set to \<open>t5\<close>.
\<close>

theorem backup_restore_counterexample:
  "map snd (mem_live mem_before)
     = [[(''id'', JStr ''a''), (''x'', JNum 1), (''_created'', JStr ''t1''),
         (''_updated'', JStr ''t1'')]]
   \<and> mem_live mem_emptied = []
   \<and> map snd (mem_live (snd (mem_restore mem_emptied (Some (mem_backup mem_before))
                                (\<lambda>k. ''u9'') (\<lambda>k. ''t5''))))
     = [[(''id'', JStr ''a''), (''x'', JNum 1), (''_created'', JStr ''t5''),
         (''_updated'', JStr ''t5'')]]
   \<and> map snd (mem_live (snd (mem_restore mem_emptied (Some (mem_backup mem_before))
                                (\<lambda>k. ''u9'') (\<lambda>k. ''t5''))))
     \<noteq> map snd (mem_live mem_before)"
  by (simp add: backup_eval run_eval)

end
